theory Spec2Isabelle
  imports Complex_Main
begin

section \<open>Python strings\<close>

text \<open>
  A Python \<open>str\<close> is modelled as a \<open>string\<close>: one \<open>char\<close> per code point, so the model
  covers the code points 0 to 255.  The character classes below are the ones Python uses on
  that range: \<open>str.isspace\<close> (also the class \<open>\s\<close> of \<open>re\<close>), the decimal digits
  (\<open>\d\<close>) and the word characters (\<open>\w\<close>, alphanumerics and the underscore).
\<close>

definition code :: "char \<Rightarrow> nat" where
  "code c = of_char c"

definition isspace :: "char \<Rightarrow> bool" where
  "isspace c = (code c \<in> {9, 10, 11, 12, 13, 28, 29, 30, 31, 32, 133, 160})"

definition isdigit :: "char \<Rightarrow> bool" where
  "isdigit c = (48 \<le> code c \<and> code c \<le> 57)"

definition isupper_ascii :: "char \<Rightarrow> bool" where
  "isupper_ascii c = (65 \<le> code c \<and> code c \<le> 90)"

definition islower_ascii :: "char \<Rightarrow> bool" where
  "islower_ascii c = (97 \<le> code c \<and> code c \<le> 122)"

definition isword :: "char \<Rightarrow> bool" where
  "isword c = (isdigit c \<or> isupper_ascii c \<or> islower_ascii c \<or> code c = 95
     \<or> code c \<in> {170, 178, 179, 181, 185, 186, 188, 189, 190}
     \<or> (192 \<le> code c \<and> code c \<noteq> 215 \<and> code c \<noteq> 247))"

text \<open>
  Case mapping.  The patterns and the words it is applied to hold ASCII letters only, so the
  mapping of the other code points never decides a result; they are left unchanged.
\<close>

definition lower :: "char \<Rightarrow> char" where
  "lower c = (if isupper_ascii c then char_of (code c + 32) else c)"

definition upper :: "char \<Rightarrow> char" where
  "upper c = (if islower_ascii c then char_of (code c - 32) else c)"

definition str_upper :: "string \<Rightarrow> string" where
  "str_upper s = map upper s"

text \<open>\<open>sub in s\<close>\<close>

fun str_contains :: "string \<Rightarrow> string \<Rightarrow> bool" where
  "str_contains sub [] = (sub = [])"
| "str_contains sub (c # s) = (take (length sub) (c # s) = sub \<or> str_contains sub s)"

text \<open>\<open>s.replace(old, new)\<close>: every occurrence, left to right, without overlap.  The
  counter \<open>k\<close> is the number of characters of the current occurrence still to be dropped.\<close>

fun replace_from :: "string \<Rightarrow> string \<Rightarrow> nat \<Rightarrow> string \<Rightarrow> string" where
  "replace_from old new k [] = []"
| "replace_from old new (Suc k) (c # s) = replace_from old new k s"
| "replace_from old new 0 (c # s) =
     (if take (length old) (c # s) = old
      then new @ replace_from old new (length old - 1) s
      else c # replace_from old new 0 s)"

definition str_replace :: "string \<Rightarrow> string \<Rightarrow> string \<Rightarrow> string" where
  "str_replace s old new =
     (if old = [] then new @ concat (map (\<lambda>c. c # new) s) else replace_from old new 0 s)"

text \<open>\<open>s.rsplit(sep, 1)\<close> for a separator that occurs in \<open>s\<close>: the text before and the text
  after the last occurrence.  \<open>rfind\<close> looks for the occurrence at the highest index not
  above \<open>i\<close>.\<close>

fun rfind :: "string \<Rightarrow> string \<Rightarrow> nat \<Rightarrow> nat option" where
  "rfind sep s 0 = (if take (length sep) s = sep then Some 0 else None)"
| "rfind sep s (Suc i) =
     (if take (length sep) (drop (Suc i) s) = sep then Some (Suc i) else rfind sep s i)"

definition str_rsplit1 :: "string \<Rightarrow> string \<Rightarrow> string list" where
  "str_rsplit1 s sep =
     (case rfind sep s (length s - length sep) of
        None \<Rightarrow> [s]
      | Some i \<Rightarrow> [take i s, drop (i + length sep) s])"

text \<open>\<open>s.strip()\<close> and \<open>s.split()\<close> (runs of whitespace separate the tokens; \<open>cur\<close> is the
  token being read, reversed).\<close>

definition str_strip :: "string \<Rightarrow> string" where
  "str_strip s = rev (dropWhile isspace (rev (dropWhile isspace s)))"

fun split_from :: "string \<Rightarrow> string \<Rightarrow> string list" where
  "split_from cur [] = (if cur = [] then [] else [rev cur])"
| "split_from cur (c # s) =
     (if isspace c then (if cur = [] then split_from [] s else rev cur # split_from [] s)
      else split_from (c # cur) s)"

definition str_split :: "string \<Rightarrow> string list" where
  "str_split s = split_from [] s"

section \<open>The regular expressions of the \<open>re\<close> module\<close>

text \<open>
  The constructs the patterns of the parsers use: literals, character classes, sequence,
  alternation, the greedy repetition of a class (\<open>\s*\<close>; \<open>\d+\<close> is \<open>\d\<close> followed by \<open>\d*\<close>),
  the capturing group, the anchors \<open>^\<close> and \<open>$\<close>, the word boundary \<open>\b\<close> and the negative
  lookbehind \<open>(?<!w)\<close>.  The matcher is a backtracking one: it returns the ways a regular
  expression can match at the current position, in the order \<open>re\<close> tries them, and the
  first one is the match \<open>re\<close> reports.

  A matcher state is the text before the position, reversed, the text from the position
  on, and the text captured by group 1 so far.
\<close>

datatype cset = Digit | Space | Chr char | Range char char

datatype regex =
    Eps
  | Lit char
  | Class "cset list"
  | Seq regex regex
  | Alt regex regex
  | Many "cset list"
  | Group regex
  | Bol
  | Eol
  | WordB
  | NotBehind string

type_synonym mstate = "string \<times> string \<times> string option"

fun in_cset :: "cset \<Rightarrow> char \<Rightarrow> bool" where
  "in_cset Digit c = isdigit c"
| "in_cset Space c = isspace c"
| "in_cset (Chr p) c = (c = p)"
| "in_cset (Range lo hi) c = (code lo \<le> code c \<and> code c \<le> code hi)"

text \<open>The flag \<open>ic\<close> is \<open>re.IGNORECASE\<close>.\<close>

definition lit_eq :: "bool \<Rightarrow> char \<Rightarrow> char \<Rightarrow> bool" where
  "lit_eq ic p c = (if ic then lower c = lower p else c = p)"

definition in_class :: "bool \<Rightarrow> cset list \<Rightarrow> char \<Rightarrow> bool" where
  "in_class ic cs c =
     (\<exists>i \<in> set cs. in_cset i c \<or> (ic \<and> (in_cset i (lower c) \<or> in_cset i (upper c))))"

fun many :: "(char \<Rightarrow> bool) \<Rightarrow> mstate \<Rightarrow> mstate list" where
  "many P (b, [], g) = [(b, [], g)]"
| "many P (b, c # s, g) =
     (if P c then many P (c # b, s, g) @ [(b, c # s, g)] else [(b, c # s, g)])"

fun ms :: "bool \<Rightarrow> regex \<Rightarrow> mstate \<Rightarrow> mstate list" where
  "ms ic Eps st = [st]"
| "ms ic (Lit p) (b, s, g) =
     (case s of [] \<Rightarrow> [] | c # s' \<Rightarrow> if lit_eq ic p c then [(c # b, s', g)] else [])"
| "ms ic (Class cs) (b, s, g) =
     (case s of [] \<Rightarrow> [] | c # s' \<Rightarrow> if in_class ic cs c then [(c # b, s', g)] else [])"
| "ms ic (Seq r1 r2) st = concat (map (ms ic r2) (ms ic r1 st))"
| "ms ic (Alt r1 r2) st = ms ic r1 st @ ms ic r2 st"
| "ms ic (Many cs) st = many (in_class ic cs) st"
| "ms ic (Group r) (b, s, g) =
     map (\<lambda>(b', s', g'). (b', s', Some (take (length s - length s') s))) (ms ic r (b, s, g))"
| "ms ic Bol (b, s, g) = (if b = [] then [(b, s, g)] else [])"
| "ms ic Eol (b, s, g) = (if s = [] \<or> s = [CHR 0x0A] then [(b, s, g)] else [])"
| "ms ic WordB (b, s, g) =
     (if (b \<noteq> [] \<and> isword (hd b)) \<noteq> (s \<noteq> [] \<and> isword (hd s)) then [(b, s, g)] else [])"
| "ms ic (NotBehind w) (b, s, g) =
     (if length w \<le> length b \<and> list_all2 (lit_eq ic) (rev w) (take (length w) b)
      then [] else [(b, s, g)])"

text \<open>Pattern syntax: a literal string, \<open>r+\<close> over a class, \<open>r?\<close>.\<close>

definition Str :: "string \<Rightarrow> regex" where
  "Str w = foldr (\<lambda>c r. Seq (Lit c) r) w Eps"

definition Many1 :: "cset list \<Rightarrow> regex" where
  "Many1 cs = Seq (Class cs) (Many cs)"

definition Opt :: "regex \<Rightarrow> regex" where
  "Opt r = Alt r Eps"

fun Seqs :: "regex list \<Rightarrow> regex" where
  "Seqs [] = Eps"
| "Seqs (r # rs) = Seq r (Seqs rs)"

text \<open>
  A match object is reduced to what the parsers read from it: \<open>group(1)\<close> and the text left
  after the match.  \<open>re_match\<close> matches at the start of the text only; \<open>re_search\<close> tries
  every start position from the left, \<open>search_from\<close> carrying the text already passed.
\<close>

record match =
  group1 :: "string option"
  remaining :: string

definition match_at :: "bool \<Rightarrow> regex \<Rightarrow> string \<Rightarrow> string \<Rightarrow> match option" where
  "match_at ic r b s =
     (case ms ic r (b, s, None) of
        [] \<Rightarrow> None
      | (b', s', g') # _ \<Rightarrow> Some \<lparr>group1 = g', remaining = s'\<rparr>)"

fun search_from :: "bool \<Rightarrow> regex \<Rightarrow> string \<Rightarrow> string \<Rightarrow> match option" where
  "search_from ic r b [] = match_at ic r b []"
| "search_from ic r b (c # s) =
     (case match_at ic r b (c # s) of
        Some m \<Rightarrow> Some m
      | None \<Rightarrow> search_from ic r (c # b) s)"

definition re_search :: "bool \<Rightarrow> regex \<Rightarrow> string \<Rightarrow> match option" where
  "re_search ic r s = search_from ic r [] s"

definition re_match :: "bool \<Rightarrow> regex \<Rightarrow> string \<Rightarrow> match option" where
  "re_match ic r s = match_at ic r [] s"



text \<open>Bounded repetition \<open>r{m,n}\<close>, greedy: \<open>m\<close> copies, then up to \<open>n - m\<close> more.\<close>

fun copies :: "nat \<Rightarrow> regex \<Rightarrow> regex" where
  "copies 0 r = Eps"
| "copies (Suc k) r = Seq r (copies k r)"

fun at_most :: "nat \<Rightarrow> regex \<Rightarrow> regex" where
  "at_most 0 r = Eps"
| "at_most (Suc k) r = Opt (Seq r (at_most k r))"

definition Rep :: "nat \<Rightarrow> nat \<Rightarrow> regex \<Rightarrow> regex" where
  "Rep m n r = Seq (copies m r) (at_most (n - m) r)"

section \<open>Decimal numerals\<close>

text \<open>
  \<open>float(s)\<close> on a plain decimal numeral: digits, a point, digits, with a digit on one side
  at least.  This is the only shape the capture group \<open>[\d,]+\.\d{2}\<close> leaves once the commas
  are removed; on any other text the model answers \<open>None\<close>, the \<open>ValueError\<close> of the
  source.  The float is represented by the rational number the numeral denotes: rounding to
  a binary float is not modelled.
\<close>

definition digits_value :: "string \<Rightarrow> int" where
  "digits_value ds = foldl (\<lambda>n c. 10 * n + (int (code c) - 48)) 0 ds"

definition py_float :: "string \<Rightarrow> rat option" where
  "py_float s =
     (let ip = takeWhile isdigit s; rest = dropWhile isdigit s in
      case rest of
        [] \<Rightarrow> if ip = [] then None else Some (of_int (digits_value ip))
      | c # fp \<Rightarrow>
          if c = CHR ''.'' \<and> list_all isdigit fp \<and> (ip \<noteq> [] \<or> fp \<noteq> [])
          then Some (of_int (digits_value ip) + of_int (digits_value fp) / 10 ^ length fp)
          else None)"

section \<open>Documents and result records\<close>

text \<open>
  A PDF file as the parsers see it: its file name and what \<open>PyPDF2\<close> reads from it, the text
  of each page in physical order.  \<open>extract_text()\<close> may give no text for a page (\<open>None\<close>, or
  the empty string).  \<open>page_texts\<close> is \<open>None\<close> for a file that cannot be opened or read: each
  method reads the file inside \<open>try\<close> with a bare \<open>except\<close>, which then answers as if no page
  had qualified.
\<close>

record pdf =
  name :: string
  page_texts :: "string option list option"

datatype institution = Wells_Fargo_Advisors | BOK_Financial

text \<open>The status mark of a record: the check mark (\<open>Complete\<close>) or the warning sign.\<close>

datatype status = Complete | Needs_Review

record result =
  Filename :: string
  Account_Number :: "string option"
  Closing_Value :: "rat option"
  Institution :: institution
  Status :: status

datatype error = IndexError

text \<open>Truth value of an optional string: \<open>None\<close> and the empty string are false.\<close>

definition truthy :: "string option \<Rightarrow> bool" where
  "truthy x = (case x of None \<Rightarrow> False | Some s \<Rightarrow> s \<noteq> [])"

section \<open>The file name parser (\<open>extract_bok_statements.py\<close>)\<close>

text \<open>The patterns of \<open>extract_beneficiary_and_account\<close>:
  \<^verbatim>\<open>\b(WH|Warehouse|Whse|Whouse|Warehse)\b\<close>, \<^verbatim>\<open>^[A-Z]{2,4}$\<close>,
  \<^verbatim>\<open>(\d+[-]\d+\.\d+)\<close> and \<^verbatim>\<open>(\d+[-]\d+(?:\.\d+)?)\<close>.\<close>

definition warehouse_pattern :: regex where
  "warehouse_pattern =
     Seqs [WordB,
           Group (Alt (Str ''WH'') (Alt (Str ''Warehouse'') (Alt (Str ''Whse'')
                   (Alt (Str ''Whouse'') (Str ''Warehse''))))),
           WordB]"

definition code_pattern :: regex where
  "code_pattern = Seqs [Bol, Rep 2 4 (Class [Range CHR ''A'' CHR ''Z'']), Eol]"

definition bok_account_pattern :: regex where
  "bok_account_pattern =
     Group (Seqs [Many1 [Digit], Class [Chr CHR ''-''], Many1 [Digit],
                  Lit CHR ''.'', Many1 [Digit]])"

definition dash_account_pattern :: regex where
  "dash_account_pattern =
     Group (Seqs [Many1 [Digit], Class [Chr CHR ''-''], Many1 [Digit],
                  Opt (Seqs [Lit CHR ''.'', Many1 [Digit]])])"

text \<open>The loop over \<open>reversed(name_words)\<close>.\<close>

fun find_beneficiary :: "string list \<Rightarrow> string option" where
  "find_beneficiary [] = None"
| "find_beneficiary (word # ws) =
     (if re_match True warehouse_pattern word \<noteq> None then find_beneficiary ws
      else if re_match True code_pattern word \<noteq> None then Some (str_upper word)
      else find_beneficiary ws)"

text \<open>\<open>account_section.split()[0]\<close> raises \<open>IndexError\<close> on a section without a token.\<close>

definition first_token :: "string \<Rightarrow> error + string" where
  "first_token s = (case str_split s of [] \<Rightarrow> Inl IndexError | w # _ \<Rightarrow> Inr w)"

definition account_of_section :: "string \<Rightarrow> error + string option" where
  "account_of_section account_section =
     (case re_search False bok_account_pattern account_section of
        Some m \<Rightarrow> Inr (group1 m)
      | None \<Rightarrow>
          (case re_search False dash_account_pattern account_section of
             Some m \<Rightarrow> Inr (group1 m)
           | None \<Rightarrow>
               (case first_token account_section of
                  Inl e \<Rightarrow> Inl e
                | Inr w \<Rightarrow> Inr (Some w))))"

definition extract_beneficiary_and_account ::
    "string \<Rightarrow> error + (string option \<times> string option)" where
  "extract_beneficiary_and_account filename =
     (let name_part = str_replace filename ''.pdf'' [] in
      if str_contains '' - '' name_part then
        (let parts = str_rsplit1 name_part '' - '' in
         if 1 < length parts then
           (let name_section = str_strip (parts ! 0);
                account_section = str_strip (parts ! 1);
                beneficiary = find_beneficiary (rev (str_split name_section)) in
            case account_of_section account_section of
              Inl e \<Rightarrow> Inl e
            | Inr account_number \<Rightarrow> Inr (beneficiary, account_number))
         else Inr (None, None))
      else Inr (None, None))"

section \<open>The two parsers (\<open>extract_all_statements_final_Version2.py\<close>)\<close>

subsection \<open>\<open>WFAParser\<close>\<close>

text \<open>\<^verbatim>\<open>(\d+[-\.]\d+(?:\.\d+)?)\<close>\<close>

definition wfa_account_pattern :: regex where
  "wfa_account_pattern =
     Group (Seqs [Many1 [Digit], Class [Chr CHR ''-'', Chr CHR ''.''], Many1 [Digit],
                  Opt (Seqs [Lit CHR ''.'', Many1 [Digit]])])"

definition wfa_extract_account_number_from_filename :: "string \<Rightarrow> error + string option" where
  "wfa_extract_account_number_from_filename filename =
     (let name_part = str_replace filename ''.pdf'' [] in
      if str_contains '' - '' name_part then
        (let parts = str_rsplit1 name_part '' - '' in
         if 1 < length parts then
           (let account_part = str_strip (parts ! 1) in
            case re_search False wfa_account_pattern account_part of
              Some m \<Rightarrow> Inr (group1 m)
            | None \<Rightarrow>
                (case first_token account_part of
                   Inl e \<Rightarrow> Inl e
                 | Inr w \<Rightarrow> Inr (Some w)))
         else Inr None)
      else Inr None)"

text \<open>\<^verbatim>\<open>Page\s*1\s*of\s*\d+\<close>, with the page number as a parameter.\<close>

definition page_of_pattern :: "char \<Rightarrow> regex" where
  "page_of_pattern n =
     Seqs [Str ''Page'', Many [Space], Lit n, Many [Space], Str ''of'', Many [Space],
           Many1 [Digit]]"

fun snapshot_loop :: "string option list \<Rightarrow> string option" where
  "snapshot_loop [] = None"
| "snapshot_loop (text # pages) =
     (if truthy text \<and> re_search False (page_of_pattern CHR ''1'') (the text) \<noteq> None
      then text else snapshot_loop pages)"

definition find_snapshot_page :: "pdf \<Rightarrow> string option" where
  "find_snapshot_page pdf_path =
     (case page_texts pdf_path of None \<Rightarrow> None | Some pages \<Rightarrow> snapshot_loop pages)"

text \<open>The numeral group \<^verbatim>\<open>([\d,]+\.\d{2})\<close>, and the two patterns
  \<^verbatim>\<open>Closingvalue\s*\$\s*([\d,]+\.\d{2})\<close> and \<^verbatim>\<open>Closing\s*value\s*\$\s*([\d,]+\.\d{2})\<close>.\<close>

definition amount_group :: regex where
  "amount_group =
     Group (Seqs [Many1 [Digit, Chr CHR '',''], Lit CHR ''.'', Rep 2 2 (Class [Digit])])"

definition wfa_patterns :: "regex list" where
  "wfa_patterns =
     [Seqs [Str ''Closingvalue'', Many [Space], Lit CHR ''$'', Many [Space], amount_group],
      Seqs [Str ''Closing'', Many [Space], Str ''value'', Many [Space], Lit CHR ''$'',
            Many [Space], amount_group]]"

text \<open>\<open>float(match.group(1).replace(',', ''))\<close>; \<open>None\<close> when it raises.\<close>

definition amount_of :: "match \<Rightarrow> rat option" where
  "amount_of m =
     (case group1 m of None \<Rightarrow> None | Some g \<Rightarrow> py_float (str_replace g '','' []))"

fun closing_loop :: "regex list \<Rightarrow> string \<Rightarrow> rat option" where
  "closing_loop [] text = None"
| "closing_loop (pattern # patterns) text =
     (case re_search True pattern text of
        None \<Rightarrow> closing_loop patterns text
      | Some m \<Rightarrow>
          (case amount_of m of
             None \<Rightarrow> closing_loop patterns text
           | Some v \<Rightarrow> if 0 \<le> v then Some v else closing_loop patterns text))"

definition extract_closing_value :: "string option \<Rightarrow> rat option" where
  "extract_closing_value text =
     (if \<not> truthy text then None else closing_loop wfa_patterns (the text))"

definition status_of :: "string option \<Rightarrow> rat option \<Rightarrow> status" where
  "status_of account_number closing_value =
     (if truthy account_number \<and> closing_value \<noteq> None then Complete else Needs_Review)"

definition wfa_parse :: "pdf \<Rightarrow> error + result" where
  "wfa_parse pdf_path =
     (case wfa_extract_account_number_from_filename (name pdf_path) of
        Inl e \<Rightarrow> Inl e
      | Inr account_number \<Rightarrow>
          (let page_text = find_snapshot_page pdf_path;
               closing_value = extract_closing_value page_text in
           Inr \<lparr>Filename = name pdf_path,
                Account_Number = account_number,
                Closing_Value = closing_value,
                Institution = Wells_Fargo_Advisors,
                Status = status_of account_number closing_value\<rparr>))"

subsection \<open>\<open>BOKFinancialParser\<close>\<close>

definition bok_extract_account_number_from_filename :: "string \<Rightarrow> error + string option" where
  "bok_extract_account_number_from_filename filename =
     (let name_part = str_replace filename ''.pdf'' [] in
      if str_contains '' - '' name_part then
        (let parts = str_rsplit1 name_part '' - '' in
         if 1 < length parts then
           (let account_part = str_strip (parts ! 1) in
            case re_search False bok_account_pattern account_part of
              Some m \<Rightarrow> Inr (group1 m)
            | None \<Rightarrow>
                (case re_search False wfa_account_pattern account_part of
                   Some m \<Rightarrow> Inr (group1 m)
                 | None \<Rightarrow>
                     (case first_token account_part of
                        Inl e \<Rightarrow> Inl e
                      | Inr w \<Rightarrow> Inr (Some w))))
         else Inr None)
      else Inr None)"

text \<open>The test of one page text in \<open>find_account_overview_page\<close>: the page label, by the
  pattern \<^verbatim>\<open>Page\s*2\s*of\s*\d+\<close> or by the literal \<open>Page2of\<close>, and the heading.\<close>

definition has_page_2_label :: "string \<Rightarrow> bool" where
  "has_page_2_label text =
     (re_search False (page_of_pattern CHR ''2'') text \<noteq> None \<or> str_contains ''Page2of'' text)"

definition has_account_overview :: "string \<Rightarrow> bool" where
  "has_account_overview text =
     (str_contains ''AccountOverview'' text \<or> str_contains ''Account Overview'' text)"

fun overview_loop :: "string option list \<Rightarrow> string option" where
  "overview_loop [] = None"
| "overview_loop (text # pages) =
     (if \<not> truthy text then overview_loop pages
      else if has_page_2_label (the text) \<and> has_account_overview (the text) then text
      else overview_loop pages)"

definition find_account_overview_page :: "pdf \<Rightarrow> string option" where
  "find_account_overview_page pdf_path =
     (case page_texts pdf_path of None \<Rightarrow> None | Some pages \<Rightarrow> overview_loop pages)"

text \<open>\<^verbatim>\<open>AccruedIncome\s+[\d,]+\.\d{2}\s+Total\s+([\d,]+\.\d{2})\<close> and
  \<^verbatim>\<open>(?<!Principal)(?<!Income)(?<!Gain)(?<!Loss)Total\s+([\d,]+\.\d{2})\<close>.\<close>

definition bok_patterns :: "regex list" where
  "bok_patterns =
     [Seqs [Str ''AccruedIncome'', Many1 [Space],
            Many1 [Digit, Chr CHR '',''], Lit CHR ''.'', Rep 2 2 (Class [Digit]),
            Many1 [Space], Str ''Total'', Many1 [Space], amount_group],
      Seqs [NotBehind ''Principal'', NotBehind ''Income'', NotBehind ''Gain'', NotBehind ''Loss'',
            Str ''Total'', Many1 [Space], amount_group]]"

fun total_loop :: "regex list \<Rightarrow> string \<Rightarrow> rat option" where
  "total_loop [] text = None"
| "total_loop (pattern # patterns) text =
     (case re_search True pattern text of
        None \<Rightarrow> total_loop patterns text
      | Some m \<Rightarrow>
          (case amount_of m of
             None \<Rightarrow> total_loop patterns text
           | Some v \<Rightarrow>
               if 0 < v \<and> v < 10000000000 then Some v else total_loop patterns text))"

definition extract_total_value :: "string option \<Rightarrow> rat option" where
  "extract_total_value text =
     (if \<not> truthy text then None else total_loop bok_patterns (the text))"

definition bok_parse :: "pdf \<Rightarrow> error + result" where
  "bok_parse pdf_path =
     (case bok_extract_account_number_from_filename (name pdf_path) of
        Inl e \<Rightarrow> Inl e
      | Inr account_number \<Rightarrow>
          (let page_text = find_account_overview_page pdf_path;
               total_value = extract_total_value page_text in
           Inr \<lparr>Filename = name pdf_path,
                Account_Number = account_number,
                Closing_Value = total_value,
                Institution = BOK_Financial,
                Status = status_of account_number total_value\<rparr>))"

subsection \<open>\<open>CombinedStatementParser\<close>\<close>

datatype parser = WFAParser | BOKFinancialParser

definition has_bok_signature :: "string \<Rightarrow> bool" where
  "has_bok_signature text =
     (str_contains ''BOKFINANCIAL'' text \<or> str_contains ''BOK FINANCIAL'' text
      \<or> str_contains ''BOKF'' text)"

definition pages_to_check :: "string option list \<Rightarrow> nat list" where
  "pages_to_check pages = (if 3 < length pages then [0, 2, 3] else [0..<length pages])"

text \<open>\<open>text and ('BOKFINANCIAL' in text or ...)\<close> for the text of one page.\<close>

definition signature_on_page :: "string option \<Rightarrow> bool" where
  "signature_on_page text = (truthy text \<and> has_bok_signature (the text))"

definition is_bok_financial :: "pdf \<Rightarrow> bool" where
  "is_bok_financial pdf_path =
     (case page_texts pdf_path of
        None \<Rightarrow> False
      | Some pages \<Rightarrow>
          list_ex (\<lambda>page_num. page_num < length pages \<and> signature_on_page (pages ! page_num))
                  (pages_to_check pages))"

definition select_parser :: "pdf \<Rightarrow> parser" where
  "select_parser pdf_path = (if is_bok_financial pdf_path then BOKFinancialParser else WFAParser)"

fun parse :: "parser \<Rightarrow> pdf \<Rightarrow> error + result" where
  "parse WFAParser pdf_path = wfa_parse pdf_path"
| "parse BOKFinancialParser pdf_path = bok_parse pdf_path"

text \<open>The loop of \<open>process_all_pdfs\<close> over the sorted files of the folder, appending to
  \<open>self.results\<close>; an exception of \<open>parse\<close> leaves the loop.\<close>

fun process_loop :: "pdf list \<Rightarrow> result list \<Rightarrow> error + result list" where
  "process_loop [] results = Inr results"
| "process_loop (pdf_file # pdf_files) results =
     (case parse (select_parser pdf_file) pdf_file of
        Inl e \<Rightarrow> Inl e
      | Inr r \<Rightarrow> process_loop pdf_files (results @ [r]))"

definition process_all_pdfs :: "pdf list \<Rightarrow> error + result list" where
  "process_all_pdfs pdf_files = process_loop pdf_files []"

subsection \<open>The earlier classifier (\<open>extract_all_statements.py\<close>)\<close>





section \<open>The single-institution parser (\<open>extract_bank_statements_final.py\<close>)\<close>






section \<open>Auxiliary notions\<close>

text \<open>The least number of characters a match of a regular expression consumes.\<close>

fun minlen :: "regex \<Rightarrow> nat" where
  "minlen Eps = 0"
| "minlen (Lit p) = 1"
| "minlen (Class cs) = 1"
| "minlen (Seq r1 r2) = minlen r1 + minlen r2"
| "minlen (Alt r1 r2) = min (minlen r1) (minlen r2)"
| "minlen (Many cs) = 0"
| "minlen (Group r) = minlen r"
| "minlen Bol = 0"
| "minlen Eol = 0"
| "minlen WordB = 0"
| "minlen (NotBehind w) = 0"

text \<open>
  What a regular expression matches, stated without the matcher: \<open>lang ic r b w a\<close> holds
  when \<open>r\<close> matches the text \<open>w\<close> that stands after the text \<open>rev b\<close> and before the text
  \<open>a\<close>.  The context decides the anchors, the word boundary and the lookbehind only.
\<close>

fun lang :: "bool \<Rightarrow> regex \<Rightarrow> string \<Rightarrow> string \<Rightarrow> string \<Rightarrow> bool" where
  "lang ic Eps b w a = (w = [])"
| "lang ic (Lit p) b w a = (\<exists>c. w = [c] \<and> lit_eq ic p c)"
| "lang ic (Class cs) b w a = (\<exists>c. w = [c] \<and> in_class ic cs c)"
| "lang ic (Seq r1 r2) b w a =
     (\<exists>w1 w2. w = w1 @ w2 \<and> lang ic r1 b w1 (w2 @ a) \<and> lang ic r2 (rev w1 @ b) w2 a)"
| "lang ic (Alt r1 r2) b w a = (lang ic r1 b w a \<or> lang ic r2 b w a)"
| "lang ic (Many cs) b w a = list_all (in_class ic cs) w"
| "lang ic (Group r) b w a = lang ic r b w a"
| "lang ic Bol b w a = (w = [] \<and> b = [])"
| "lang ic Eol b w a = (w = [] \<and> (a = [] \<or> a = [CHR 0x0A]))"
| "lang ic WordB b w a =
     (w = [] \<and> (b \<noteq> [] \<and> isword (hd b)) \<noteq> (a \<noteq> [] \<and> isword (hd a)))"
| "lang ic (NotBehind v) b w a =
     (w = [] \<and> \<not> (length v \<le> length b \<and> list_all2 (lit_eq ic) (rev v) (take (length v) b)))"

text \<open>
  The account formats in words: a run of digits, a dash, a run of digits, a point and a
  run of digits; and the same with the point and the last run optional.  A format occurs
  in a text when some part of the text has it; the leftmost and longest occurrence starts
  where no occurrence starts earlier and is at least as long as every occurrence that
  starts at the same place.
\<close>

definition digits :: "string \<Rightarrow> bool" where
  "digits ds = (ds \<noteq> [] \<and> list_all isdigit ds)"

definition dash_dot_form :: "string \<Rightarrow> bool" where
  "dash_dot_form w =
     (\<exists>d1 d2 d3. w = d1 @ ''-'' @ d2 @ ''.'' @ d3 \<and> digits d1 \<and> digits d2 \<and> digits d3)"

definition dash_form :: "string \<Rightarrow> bool" where
  "dash_form w =
     ((\<exists>d1 d2. w = d1 @ ''-'' @ d2 \<and> digits d1 \<and> digits d2) \<or> dash_dot_form w)"

text \<open>The fallback format of \<open>extract_all_statements_final_Version2.py\<close> in words: a
  run of digits, a dash or a point, a run of digits, and optionally a point and a run of
  digits.\<close>

definition dash_or_point_form :: "string \<Rightarrow> bool" where
  "dash_or_point_form w =
     (\<exists>d1 c d2. (c = CHR ''-'' \<or> c = CHR ''.'') \<and> digits d1 \<and> digits d2
        \<and> (w = d1 @ [c] @ d2 \<or> (\<exists>d3. digits d3 \<and> w = d1 @ [c] @ d2 @ ''.'' @ d3)))"

definition occurs_in :: "(string \<Rightarrow> bool) \<Rightarrow> string \<Rightarrow> bool" where
  "occurs_in form s = (\<exists>pre w post. s = pre @ w @ post \<and> form w)"

definition leftmost_longest_in :: "(string \<Rightarrow> bool) \<Rightarrow> string \<Rightarrow> string \<Rightarrow> bool" where
  "leftmost_longest_in form s w =
     (\<exists>pre post. s = pre @ w @ post \<and> form w
        \<and> (\<forall>pre' w' post'. s = pre' @ w' @ post' \<and> form w' \<longrightarrow>
              length pre < length pre' \<or> (length pre = length pre' \<and> length w' \<le> length w)))"


text \<open>
  The beneficiary rule in words: going through the words from the last to the first, a
  word that is a spelling of the warehouse marker, in any letter case, is passed over; the
  first other word of two to four letters is the code, in upper case.
\<close>

definition isalpha_ascii :: "char \<Rightarrow> bool" where
  "isalpha_ascii c = (isupper_ascii c \<or> islower_ascii c)"

definition is_warehouse_marker :: "string \<Rightarrow> bool" where
  "is_warehouse_marker w =
     (map lower w \<in> set (map (map lower) [''WH'', ''Warehouse'', ''Whse'', ''Whouse'', ''Warehse'']))"

definition is_code_word :: "string \<Rightarrow> bool" where
  "is_code_word w = (2 \<le> length w \<and> length w \<le> 4 \<and> list_all isalpha_ascii w)"

fun first_code_word :: "string list \<Rightarrow> string option" where
  "first_code_word [] = None"
| "first_code_word (w # ws) =
     (if is_warehouse_marker w then first_code_word ws
      else if is_code_word w then Some (str_upper w)
      else first_code_word ws)"

section \<open>What a match consumes\<close>

lemma many_shorter:
  "(b', s', g') \<in> set (many P (b, s, g)) \<Longrightarrow> length s' \<le> length s \<and> g' = g"
proof (induction s arbitrary: b)
  case Nil
  then show ?case by simp
next
  case (Cons c s)
  show ?case
  proof (cases "P c \<and> (b', s', g') \<in> set (many P (c # b, s, g))")
    case True
    with Cons.IH[of "c # b"] show ?thesis by simp
  next
    case False
    with Cons.prems show ?thesis by (auto split: if_splits)
  qed
qed

lemma ms_consumes:
  "(b', s', g') \<in> set (ms ic r (b, s, g)) \<Longrightarrow> length s' + minlen r \<le> length s"
proof (induction r arbitrary: b s g b' s' g')
  case (Seq r1 r2)
  then obtain b1 s1 g1 where 1: "(b1, s1, g1) \<in> set (ms ic r1 (b, s, g))"
    and 2: "(b', s', g') \<in> set (ms ic r2 (b1, s1, g1))"
    by auto
  from Seq.IH(1)[OF 1] Seq.IH(2)[OF 2] show ?case by simp
next
  case (Alt r1 r2)
  then show ?case by (auto dest: Alt.IH)
next
  case (Many cs)
  then show ?case by (auto dest: many_shorter)
next
  case (Group r)
  then show ?case by (auto dest: Group.IH)
next
  case (Lit p)
  then show ?case by (cases s) (simp_all split: if_splits)
next
  case (Class cs)
  then show ?case by (cases s) (simp_all split: if_splits)
next
  case Eol
  then show ?case by (simp split: if_splits)
next
  case WordB
  then show ?case by (simp split: if_splits)
next
  case (NotBehind w)
  then show ?case by (simp split: if_splits)
qed (simp_all split: if_splits)

lemma group_capture:
  assumes "(b', s', g') \<in> set (ms ic (Group r) (b, s, g))"
  shows "\<exists>w. g' = Some w \<and> minlen r \<le> length w"
proof -
  from assms obtain g0 where in_r: "(b', s', g0) \<in> set (ms ic r (b, s, g))"
    and g': "g' = Some (take (length s - length s') s)"
    by auto
  from ms_consumes[OF in_r] have "minlen r \<le> length (take (length s - length s') s)"
    by simp
  with g' show ?thesis by blast
qed

lemma match_at_group:
  assumes "match_at ic (Group r) b s = Some m"
  shows "\<exists>w. group1 m = Some w \<and> minlen r \<le> length w"
proof -
  from assms obtain b' s' g' rest where ms: "ms ic (Group r) (b, s, None) = (b', s', g') # rest"
    and m: "m = \<lparr>group1 = g', remaining = s'\<rparr>"
    unfolding match_at_def by (cases "ms ic (Group r) (b, s, None)") auto
  from ms have "(b', s', g') \<in> set (ms ic (Group r) (b, s, None))" by simp
  from group_capture[OF this] m show ?thesis by simp
qed

lemma search_from_at:
  "search_from ic r b s = Some m \<Longrightarrow> \<exists>b0 s0. match_at ic r b0 s0 = Some m"
proof (induction s arbitrary: b)
  case Nil
  then show ?case by auto
next
  case (Cons c s)
  show ?case
  proof (cases "match_at ic r b (c # s)")
    case None
    with Cons.prems have "search_from ic r (c # b) s = Some m" by simp
    from Cons.IH[OF this] show ?thesis .
  next
    case (Some m')
    with Cons.prems have "m' = m" by simp
    with Some show ?thesis by blast
  qed
qed

lemma split_from_tokens:
  "w \<in> set (split_from cur s) \<Longrightarrow> \<forall>c \<in> set cur. \<not> isspace c \<Longrightarrow>
     w \<noteq> [] \<and> (\<forall>c \<in> set w. \<not> isspace c)"
proof (induction s arbitrary: cur)
  case Nil
  then show ?case by (auto split: if_splits)
next
  case (Cons c s)
  show ?case
  proof (cases "isspace c")
    case True
    with Cons.prems Cons.IH[of "[]"] show ?thesis by (auto split: if_splits)
  next
    case False
    with Cons.prems Cons.IH[of "c # cur"] show ?thesis by auto
  qed
qed

lemma first_token_nonempty: "first_token s = Inr w \<Longrightarrow> w \<noteq> []"
  using split_from_tokens[of w "[]" s]
  by (auto simp: first_token_def str_split_def split: list.splits)

lemma re_search_group:
  assumes "re_search ic (Group r) s = Some m"
  shows "\<exists>w. group1 m = Some w \<and> minlen r \<le> length w"
proof -
  from assms obtain b0 s0 where "match_at ic (Group r) b0 s0 = Some m"
    unfolding re_search_def using search_from_at by blast
  then show ?thesis by (rule match_at_group)
qed

lemma wfa_account_pattern_capture:
  assumes "re_search False wfa_account_pattern s = Some m"
  shows "\<exists>w. group1 m = Some w \<and> w \<noteq> []"
proof -
  from re_search_group[OF assms[unfolded wfa_account_pattern_def]]
  obtain w where "group1 m = Some w" and "3 \<le> length w"
    by (auto simp: Many1_def Opt_def)
  then show ?thesis by auto
qed

lemma bok_account_pattern_capture:
  assumes "re_search False bok_account_pattern s = Some m"
  shows "\<exists>w. group1 m = Some w \<and> w \<noteq> []"
proof -
  from re_search_group[OF assms[unfolded bok_account_pattern_def]]
  obtain w where "group1 m = Some w" and "5 \<le> length w"
    by (auto simp: Many1_def Opt_def)
  then show ?thesis by auto
qed

lemma wfa_account_nonempty:
  assumes "wfa_extract_account_number_from_filename fn = Inr (Some a)"
  shows "a \<noteq> []"
proof -
  define sect where "sect = str_strip (str_rsplit1 (str_replace fn ''.pdf'' []) '' - '' ! 1)"
  show ?thesis
  proof (cases "re_search False wfa_account_pattern sect")
    case None
    with assms obtain w where "first_token sect = Inr w" and "a = w"
      by (simp add: wfa_extract_account_number_from_filename_def Let_def sect_def
          split: if_splits sum.splits)
    then show ?thesis by (simp add: first_token_nonempty)
  next
    case (Some m)
    with assms have "group1 m = Some a"
      by (simp add: wfa_extract_account_number_from_filename_def Let_def sect_def
          split: if_splits)
    with wfa_account_pattern_capture[OF Some] show ?thesis by auto
  qed
qed

lemma bok_account_nonempty:
  assumes "bok_extract_account_number_from_filename fn = Inr (Some a)"
  shows "a \<noteq> []"
proof -
  define sect where "sect = str_strip (str_rsplit1 (str_replace fn ''.pdf'' []) '' - '' ! 1)"
  show ?thesis
  proof (cases "re_search False bok_account_pattern sect")
    case (Some m)
    with assms have "group1 m = Some a"
      by (simp add: bok_extract_account_number_from_filename_def Let_def sect_def
          split: if_splits)
    with bok_account_pattern_capture[OF Some] show ?thesis by auto
  next
    case None
    note no_bok = this
    show ?thesis
    proof (cases "re_search False wfa_account_pattern sect")
      case None
      with no_bok assms obtain w where "first_token sect = Inr w" and "a = w"
        by (simp add: bok_extract_account_number_from_filename_def Let_def sect_def
            split: if_splits sum.splits)
      then show ?thesis by (simp add: first_token_nonempty)
    next
      case (Some m)
      with no_bok assms have "group1 m = Some a"
        by (simp add: bok_extract_account_number_from_filename_def Let_def sect_def
            split: if_splits)
      with wfa_account_pattern_capture[OF Some] show ?thesis by auto
    qed
  qed
qed

section \<open>The matcher and the language of a regular expression\<close>

lemma many_iff:
  "(b', s', g') \<in> set (many P (b, s, g))
     \<longleftrightarrow> (\<exists>w. s = w @ s' \<and> list_all P w \<and> b' = rev w @ b \<and> g' = g)"
proof (induction s arbitrary: b)
  case Nil
  show ?case by auto
next
  case (Cons c s)
  show ?case
  proof (cases "P c")
    case False
    have "(\<exists>w. c # s = w @ s' \<and> list_all P w \<and> b' = rev w @ b \<and> g' = g)
            \<longleftrightarrow> (s' = c # s \<and> b' = b \<and> g' = g)"
    proof
      assume "\<exists>w. c # s = w @ s' \<and> list_all P w \<and> b' = rev w @ b \<and> g' = g"
      then obtain w where w: "c # s = w @ s'" "list_all P w" "b' = rev w @ b" "g' = g" by blast
      with False have "w = []" by (cases w) auto
      with w show "s' = c # s \<and> b' = b \<and> g' = g" by simp
    next
      assume "s' = c # s \<and> b' = b \<and> g' = g"
      then show "\<exists>w. c # s = w @ s' \<and> list_all P w \<and> b' = rev w @ b \<and> g' = g"
        by (intro exI[of _ "[]"]) simp
    qed
    with False show ?thesis by auto
  next
    case True
    have "(\<exists>w. c # s = w @ s' \<and> list_all P w \<and> b' = rev w @ b \<and> g' = g)
            \<longleftrightarrow> (s' = c # s \<and> b' = b \<and> g' = g)
                \<or> (\<exists>w. s = w @ s' \<and> list_all P w \<and> b' = rev w @ c # b \<and> g' = g)"
      (is "?L \<longleftrightarrow> ?A \<or> ?B")
    proof
      assume ?L
      then obtain w where w: "c # s = w @ s'" "list_all P w" "b' = rev w @ b" "g' = g" by blast
      show "?A \<or> ?B"
      proof (cases w)
        case Nil
        with w show ?thesis by simp
      next
        case (Cons x xs)
        with w have "s = xs @ s' \<and> list_all P xs \<and> b' = rev xs @ c # b \<and> g' = g" by simp
        then show ?thesis by blast
      qed
    next
      assume "?A \<or> ?B"
      then show ?L
      proof
        assume ?A
        then show ?L by (intro exI[of _ "[]"]) simp
      next
        assume ?B
        then obtain w where "s = w @ s'" "list_all P w" "b' = rev w @ c # b" "g' = g" by blast
        with True show ?L by (intro exI[of _ "c # w"]) simp
      qed
    qed
    with True Cons.IH[of "c # b"] show ?thesis by auto
  qed
qed

lemma ms_sound:
  "(b', s', g') \<in> set (ms ic r (b, s, g))
     \<Longrightarrow> \<exists>w. s = w @ s' \<and> b' = rev w @ b \<and> lang ic r b w s'"
proof (induction r arbitrary: b s g b' s' g')
  case (Seq r1 r2)
  then obtain b1 s1 g1 where 1: "(b1, s1, g1) \<in> set (ms ic r1 (b, s, g))"
    and 2: "(b', s', g') \<in> set (ms ic r2 (b1, s1, g1))"
    by auto
  from Seq.IH(1)[OF 1] obtain w1 where w1: "s = w1 @ s1" "b1 = rev w1 @ b" "lang ic r1 b w1 s1"
    by blast
  from Seq.IH(2)[OF 2] obtain w2 where w2: "s1 = w2 @ s'" "b' = rev w2 @ b1" "lang ic r2 b1 w2 s'"
    by blast
  from w1 w2 have "s = (w1 @ w2) @ s' \<and> b' = rev (w1 @ w2) @ b \<and> lang ic (Seq r1 r2) b (w1 @ w2) s'"
    by auto
  then show ?case by blast
next
  case (Alt r1 r2)
  then have "(b', s', g') \<in> set (ms ic r1 (b, s, g)) \<or> (b', s', g') \<in> set (ms ic r2 (b, s, g))"
    by simp
  then show ?case
    using Alt.IH by (metis lang.simps(5))
next
  case (Many cs)
  then show ?case by (auto simp: many_iff)
next
  case (Group r)
  then obtain g0 where "(b', s', g0) \<in> set (ms ic r (b, s, g))" by auto
  from Group.IH[OF this] show ?case by simp
next
  case (Lit p)
  then show ?case by (cases s) (simp_all split: if_splits)
next
  case (Class cs)
  then show ?case by (cases s) (simp_all split: if_splits)
next
  case Eps
  then show ?case by simp
next
  case Bol
  then show ?case by (simp split: if_splits)
next
  case Eol
  then show ?case by (simp split: if_splits)
next
  case WordB
  then show ?case by (simp split: if_splits)
next
  case (NotBehind v)
  then show ?case by (simp split: if_splits)
qed

lemma ms_complete:
  "lang ic r b w a \<Longrightarrow> \<exists>g'. (rev w @ b, a, g') \<in> set (ms ic r (b, w @ a, g))"
proof (induction r arbitrary: b w a g)
  case (Seq r1 r2)
  then obtain w1 w2 where w: "w = w1 @ w2" and 1: "lang ic r1 b w1 (w2 @ a)"
    and 2: "lang ic r2 (rev w1 @ b) w2 a"
    by auto
  from Seq.IH(1)[OF 1, of g] obtain g1
    where m1: "(rev w1 @ b, w2 @ a, g1) \<in> set (ms ic r1 (b, w1 @ w2 @ a, g))" by blast
  from Seq.IH(2)[OF 2, of g1] obtain g2
    where m2: "(rev w2 @ rev w1 @ b, a, g2) \<in> set (ms ic r2 (rev w1 @ b, w2 @ a, g1))" by blast
  from m1 m2 w have "(rev w @ b, a, g2) \<in> set (ms ic (Seq r1 r2) (b, w @ a, g))"
    by auto
  then show ?case by blast
next
  case (Alt r1 r2)
  then have "lang ic r1 b w a \<or> lang ic r2 b w a" by simp
  then show ?case
  proof
    assume "lang ic r1 b w a"
    from Alt.IH(1)[OF this, of g] show ?thesis by auto
  next
    assume "lang ic r2 b w a"
    from Alt.IH(2)[OF this, of g] show ?thesis by auto
  qed
next
  case (Many cs)
  then show ?case by (simp add: many_iff)
next
  case (Group r)
  then have "lang ic r b w a" by simp
  from Group.IH[OF this, of g] obtain g0
    where "(rev w @ b, a, g0) \<in> set (ms ic r (b, w @ a, g))" by blast
  then have "(rev w @ b, a, Some (take (length (w @ a) - length a) (w @ a)))
               \<in> set (ms ic (Group r) (b, w @ a, g))"
    by force
  then show ?case by blast
next
  case (Lit p)
  then show ?case by auto
next
  case (Class cs)
  then show ?case by auto
next
  case Eps
  then show ?case by simp
next
  case Bol
  then show ?case by simp
next
  case Eol
  then show ?case by auto
next
  case WordB
  then show ?case by simp
next
  case (NotBehind v)
  then show ?case by simp
qed

lemma match_at_None_iff:
  "match_at ic r b s = None \<longleftrightarrow> (\<forall>w a. s = w @ a \<longrightarrow> \<not> lang ic r b w a)"
proof
  assume none: "match_at ic r b s = None"
  show "\<forall>w a. s = w @ a \<longrightarrow> \<not> lang ic r b w a"
  proof (intro allI impI notI)
    fix w a
    assume "s = w @ a" and "lang ic r b w a"
    with ms_complete[of ic r b w a None] have "ms ic r (b, s, None) \<noteq> []" by auto
    with none show False by (auto simp: match_at_def split: list.splits)
  qed
next
  assume no: "\<forall>w a. s = w @ a \<longrightarrow> \<not> lang ic r b w a"
  have "ms ic r (b, s, None) = []"
  proof (cases "ms ic r (b, s, None)")
    case Nil
    then show ?thesis .
  next
    case (Cons x xs)
    obtain b' s' g' where x: "x = (b', s', g')" by (cases x)
    with Cons have "(b', s', g') \<in> set (ms ic r (b, s, None))" by simp
    from ms_sound[OF this] no show ?thesis by blast
  qed
  then show "match_at ic r b s = None" by (simp add: match_at_def)
qed

lemma match_at_Some:
  assumes "match_at ic r b s = Some m"
  shows "\<exists>w. s = w @ remaining m \<and> lang ic r b w (remaining m)"
proof -
  from assms obtain b' s' g' rest where ms: "ms ic r (b, s, None) = (b', s', g') # rest"
    and m: "m = \<lparr>group1 = g', remaining = s'\<rparr>"
    unfolding match_at_def by (cases "ms ic r (b, s, None)") auto
  from ms have "(b', s', g') \<in> set (ms ic r (b, s, None))" by simp
  from ms_sound[OF this] m show ?thesis by auto
qed

lemma match_at_Group_Some:
  assumes "match_at ic (Group r) b s = Some m"
  shows "\<exists>w. s = w @ remaining m \<and> group1 m = Some w \<and> lang ic r b w (remaining m)"
proof -
  from assms obtain b' s' g' rest
    where ms: "ms ic (Group r) (b, s, None) = (b', s', g') # rest"
    and m: "m = \<lparr>group1 = g', remaining = s'\<rparr>"
    unfolding match_at_def by (cases "ms ic (Group r) (b, s, None)") auto
  from ms have in_ms: "(b', s', g') \<in> set (ms ic (Group r) (b, s, None))" by simp
  then have g': "g' = Some (take (length s - length s') s)" by auto
  from ms_sound[OF in_ms] obtain w where w: "s = w @ s'" "lang ic r b w s'" by auto
  from w(1) g' have "g' = Some w" by simp
  with w m show ?thesis by auto
qed

lemma search_from_None_iff:
  "search_from ic r b s = None
     \<longleftrightarrow> (\<forall>pre w a. s = pre @ w @ a \<longrightarrow> \<not> lang ic r (rev pre @ b) w a)"
proof (induction s arbitrary: b)
  case Nil
  show ?case by (simp add: match_at_None_iff)
next
  case (Cons c s)
  have "(\<forall>pre w a. c # s = pre @ w @ a \<longrightarrow> \<not> lang ic r (rev pre @ b) w a)
          \<longleftrightarrow> (\<forall>w a. c # s = w @ a \<longrightarrow> \<not> lang ic r b w a)
              \<and> (\<forall>pre w a. s = pre @ w @ a \<longrightarrow> \<not> lang ic r (rev pre @ c # b) w a)"
    (is "?L \<longleftrightarrow> ?A \<and> ?B")
  proof (intro iffI conjI allI impI)
    fix w a
    assume ?L and "c # s = w @ a"
    then show "\<not> lang ic r b w a" by (metis append_Nil rev.simps(1))
  next
    fix pre w a
    assume l: ?L and "s = pre @ w @ a"
    then have "c # s = (c # pre) @ w @ a" by simp
    with l have "\<not> lang ic r (rev (c # pre) @ b) w a" by blast
    then show "\<not> lang ic r (rev pre @ c # b) w a" by simp
  next
    fix pre w a
    assume ab: "?A \<and> ?B" and eq: "c # s = pre @ w @ a"
    show "\<not> lang ic r (rev pre @ b) w a"
    proof (cases pre)
      case Nil
      with ab eq show ?thesis by simp
    next
      case (Cons x xs)
      with eq have "x = c" "s = xs @ w @ a" by simp_all
      with ab have "\<not> lang ic r (rev xs @ c # b) w a" by blast
      with Cons \<open>x = c\<close> show ?thesis by simp
    qed
  qed
  note split = this
  show ?case
  proof (cases "match_at ic r b (c # s)")
    case None
    then have "\<forall>w a. c # s = w @ a \<longrightarrow> \<not> lang ic r b w a"
      by (simp add: match_at_None_iff)
    with None split Cons.IH[of "c # b"] show ?thesis by simp
  next
    case (Some m)
    then have "\<not> (\<forall>w a. c # s = w @ a \<longrightarrow> \<not> lang ic r b w a)"
      using match_at_None_iff[of ic r b "c # s"] by simp
    with Some split show ?thesis by simp
  qed
qed

lemma search_from_Some:
  assumes "search_from ic r b s = Some m"
  shows "\<exists>pre. match_at ic r (rev pre @ b) (drop (length pre) s) = Some m
            \<and> pre = take (length pre) s \<and> length pre \<le> length s
            \<and> (\<forall>pre' w' a'. s = pre' @ w' @ a' \<and> length pre' < length pre
                  \<longrightarrow> \<not> lang ic r (rev pre' @ b) w' a')"
  using assms
proof (induction s arbitrary: b)
  case Nil
  then show ?case by (intro exI[of _ "[]"]) simp
next
  case (Cons c s)
  show ?case
  proof (cases "match_at ic r b (c # s)")
    case (Some m')
    with Cons.prems have "m' = m" by simp
    with Some show ?thesis by (intro exI[of _ "[]"]) simp
  next
    case None
    with Cons.prems have "search_from ic r (c # b) s = Some m" by simp
    from Cons.IH[OF this] obtain pre
      where pre: "match_at ic r (rev pre @ c # b) (drop (length pre) s) = Some m"
        "pre = take (length pre) s" "length pre \<le> length s"
        "\<forall>pre' w' a'. s = pre' @ w' @ a' \<and> length pre' < length pre
                  \<longrightarrow> \<not> lang ic r (rev pre' @ c # b) w' a'"
      by blast
    have left: "\<not> lang ic r (rev pre' @ b) w' a'"
      if "c # s = pre' @ w' @ a'" "length pre' < length (c # pre)" for pre' w' a'
    proof (cases pre')
      case Nil
      with that None show ?thesis by (simp add: match_at_None_iff)
    next
      case (Cons x xs)
      with that have "x = c" "s = xs @ w' @ a'" "length xs < length pre" by simp_all
      with pre(4) have "\<not> lang ic r (rev xs @ c # b) w' a'" by blast
      with Cons \<open>x = c\<close> show ?thesis by simp
    qed
    from pre(2) have "c # pre = take (length (c # pre)) (c # s)" by simp
    with pre(1,3) left show ?thesis
      by (intro exI[of _ "c # pre"]) auto
  qed
qed

lemma re_search_None_iff:
  "re_search ic r s = None \<longleftrightarrow> (\<forall>pre w a. s = pre @ w @ a \<longrightarrow> \<not> lang ic r (rev pre) w a)"
  using search_from_None_iff[of ic r "[]" s] by (simp add: re_search_def)

lemma re_search_Some_found:
  assumes "re_search ic r s = Some m"
  shows "\<exists>pre w. s = pre @ w @ remaining m \<and> lang ic r (rev pre) w (remaining m)
           \<and> (\<forall>pre' w' a'. s = pre' @ w' @ a' \<and> length pre' < length pre
                  \<longrightarrow> \<not> lang ic r (rev pre') w' a')"
proof -
  from search_from_Some[OF assms[unfolded re_search_def]] obtain pre
    where at: "match_at ic r (rev pre) (drop (length pre) s) = Some m"
      and pre: "pre = take (length pre) s"
      and left: "\<forall>pre' w' a'. s = pre' @ w' @ a' \<and> length pre' < length pre
                  \<longrightarrow> \<not> lang ic r (rev pre') w' a'"
    by auto
  from match_at_Some[OF at] obtain w
    where w: "drop (length pre) s = w @ remaining m" "lang ic r (rev pre) w (remaining m)"
    by blast
  from pre w(1) have "s = pre @ w @ remaining m"
    by (metis append_take_drop_id)
  with w(2) left show ?thesis by blast
qed

lemma re_search_Group_found:
  assumes "re_search ic (Group r) s = Some m"
  shows "\<exists>pre w. s = pre @ w @ remaining m \<and> group1 m = Some w
           \<and> lang ic r (rev pre) w (remaining m)
           \<and> (\<forall>pre' w' a'. s = pre' @ w' @ a' \<and> length pre' < length pre
                  \<longrightarrow> \<not> lang ic r (rev pre') w' a')"
proof -
  from search_from_Some[OF assms[unfolded re_search_def]] obtain pre
    where at: "match_at ic (Group r) (rev pre) (drop (length pre) s) = Some m"
      and pre: "pre = take (length pre) s"
      and left: "\<forall>pre' w' a'. s = pre' @ w' @ a' \<and> length pre' < length pre
                  \<longrightarrow> \<not> lang ic (Group r) (rev pre') w' a'"
    by auto
  from match_at_Group_Some[OF at] obtain w
    where w: "drop (length pre) s = w @ remaining m" "group1 m = Some w"
      "lang ic r (rev pre) w (remaining m)"
    by blast
  from pre w(1) have "s = pre @ w @ remaining m"
    by (metis append_take_drop_id)
  with w(2,3) left show ?thesis by auto
qed

lemma take_prefix_iff: "take (length sub) s = sub \<longleftrightarrow> (\<exists>post. s = sub @ post)"
  by (metis append_eq_conv_conj)

lemma str_contains_iff: "str_contains sub s \<longleftrightarrow> (\<exists>pre post. s = pre @ sub @ post)"
proof (induction s)
  case Nil
  show ?case by auto
next
  case (Cons c s)
  have "(\<exists>pre post. c # s = pre @ sub @ post)
          \<longleftrightarrow> (\<exists>post. c # s = sub @ post) \<or> (\<exists>pre post. s = pre @ sub @ post)"
    (is "?L \<longleftrightarrow> ?A \<or> ?B")
  proof
    assume ?L
    then obtain pre post where eq: "c # s = pre @ sub @ post" by blast
    show "?A \<or> ?B"
    proof (cases pre)
      case Nil
      with eq show ?thesis by auto
    next
      case (Cons x xs)
      with eq have "s = xs @ sub @ post" by simp
      then show ?thesis by blast
    qed
  next
    assume "?A \<or> ?B"
    then show ?L
    proof
      assume ?A
      then show ?L by (metis append_Nil)
    next
      assume ?B
      then obtain pre post where "s = pre @ sub @ post" by blast
      then have "c # s = (c # pre) @ sub @ post" by simp
      then show ?L by blast
    qed
  qed
  with Cons.IH show ?case by (simp add: take_prefix_iff del: take_Suc_Cons)
qed

lemma lang_Seq_single:
  "lang ic (Seq (Lit p) r) b w a
     \<longleftrightarrow> (\<exists>c w2. w = c # w2 \<and> lit_eq ic p c \<and> lang ic r (c # b) w2 a)"
  "lang ic (Seq (Class cs) r) b w a
     \<longleftrightarrow> (\<exists>c w2. w = c # w2 \<and> in_class ic cs c \<and> lang ic r (c # b) w2 a)"
proof -
  show "lang ic (Seq (Lit p) r) b w a
     \<longleftrightarrow> (\<exists>c w2. w = c # w2 \<and> lit_eq ic p c \<and> lang ic r (c # b) w2 a)"
  proof
    assume "lang ic (Seq (Lit p) r) b w a"
    then obtain w1 w2 c where "w = w1 @ w2" "w1 = [c]" "lit_eq ic p c" "lang ic r (rev w1 @ b) w2 a"
      by auto
    then show "\<exists>c w2. w = c # w2 \<and> lit_eq ic p c \<and> lang ic r (c # b) w2 a" by auto
  next
    assume "\<exists>c w2. w = c # w2 \<and> lit_eq ic p c \<and> lang ic r (c # b) w2 a"
    then obtain c w2 where "w = [c] @ w2" "lit_eq ic p c" "lang ic r (rev [c] @ b) w2 a" by auto
    then show "lang ic (Seq (Lit p) r) b w a" by (simp only: lang.simps) blast
  qed
  show "lang ic (Seq (Class cs) r) b w a
     \<longleftrightarrow> (\<exists>c w2. w = c # w2 \<and> in_class ic cs c \<and> lang ic r (c # b) w2 a)"
  proof
    assume "lang ic (Seq (Class cs) r) b w a"
    then obtain w1 w2 c where "w = w1 @ w2" "w1 = [c]" "in_class ic cs c" "lang ic r (rev w1 @ b) w2 a"
      by auto
    then show "\<exists>c w2. w = c # w2 \<and> in_class ic cs c \<and> lang ic r (c # b) w2 a" by auto
  next
    assume "\<exists>c w2. w = c # w2 \<and> in_class ic cs c \<and> lang ic r (c # b) w2 a"
    then obtain c w2 where "w = [c] @ w2" "in_class ic cs c" "lang ic r (rev [c] @ b) w2 a" by auto
    then show "lang ic (Seq (Class cs) r) b w a" by (simp only: lang.simps) blast
  qed
qed

declare lang.simps(4) [simp del]

lemma lang_Str: "lang ic (Str v) b w a \<longleftrightarrow> list_all2 (lit_eq ic) v w"
proof (induction v arbitrary: b w)
  case Nil
  show ?case by (simp add: Str_def)
next
  case (Cons p v)
  have "Str (p # v) = Seq (Lit p) (Str v)" by (simp add: Str_def)
  then show ?case
    using Cons.IH by (simp add: lang_Seq_single list_all2_Cons1)
qed



lemma lang_Many1: "lang ic (Many1 cs) b w a \<longleftrightarrow> w \<noteq> [] \<and> list_all (in_class ic cs) w"
  by (cases w) (auto simp: Many1_def lang_Seq_single)

lemma in_class_exact:
  "in_class False [Digit] = isdigit"
  "in_class False [Space] = isspace"
  "in_class False [Chr x] = (\<lambda>c. c = x)"
  "in_class False [Chr x, Chr y] = (\<lambda>c. c = x \<or> c = y)"
  by (auto simp: in_class_def fun_eq_iff)



lemma lang_Seq_Many1:
  "lang ic (Seq (Many1 cs) r) b w a
     \<longleftrightarrow> (\<exists>w1 w2. w = w1 @ w2 \<and> w1 \<noteq> [] \<and> list_all (in_class ic cs) w1
            \<and> lang ic r (rev w1 @ b) w2 a)"
  by (simp only: lang.simps(4) lang_Many1) blast


section \<open>The first match\<close>

text \<open>The match that \<open>re\<close> reports is the head of the list of \<open>ms\<close>.\<close>

lemma first_Seq:
  assumes "\<exists>xs. ms ic r1 st = x # xs" and "\<exists>ys. ms ic r2 x = y # ys"
  shows "\<exists>zs. ms ic (Seq r1 r2) st = y # zs"
  using assms by auto



lemma first_many:
  assumes "list_all P xs" and "s = [] \<or> \<not> P (hd s)"
  shows "\<exists>rest. many P (b, xs @ s, g) = (rev xs @ b, s, g) # rest"
  using assms(1)
proof (induction xs arbitrary: b)
  case Nil
  with assms(2) show ?case by (cases s) auto
next
  case (Cons x xs)
  then have "P x" "list_all P xs" by simp_all
  from Cons.IH[OF this(2), of "x # b"] \<open>P x\<close> show ?case by auto
qed


lemma first_Many1:
  assumes "xs \<noteq> []" and "list_all (in_class ic cs) xs" and "s = [] \<or> \<not> in_class ic cs (hd s)"
  shows "\<exists>rest. ms ic (Many1 cs) (b, xs @ s, g) = (rev xs @ b, s, g) # rest"
proof -
  from assms(1,2) obtain x xs' where xs: "xs = x # xs'" "in_class ic cs x"
    "list_all (in_class ic cs) xs'"
    by (cases xs) auto
  from first_many[OF xs(3) assms(3), of "x # b" g] xs show ?thesis
    by (auto simp: Many1_def)
qed

lemma first_Group:
  assumes "\<exists>xs. ms ic r (b, w @ s', g) = (b', s', g0) # xs"
  shows "\<exists>ys. ms ic (Group r) (b, w @ s', g) = (b', s', Some w) # ys"
  using assms by auto

lemma first_match_at:
  assumes "\<exists>xs. ms ic r (b, s, None) = (b', s', g') # xs"
  shows "match_at ic r b s = Some \<lparr>group1 = g', remaining = s'\<rparr>"
  using assms by (auto simp: match_at_def)









lemma first_Seq_any:
  assumes "\<exists>b1 xs. ms ic r1 (b, s, g) = (b1, s1, g1) # xs"
    and "\<And>b1. \<exists>b2 ys. ms ic r2 (b1, s1, g1) = (b2, s2, g2) # ys"
  shows "\<exists>b2 zs. ms ic (Seq r1 r2) (b, s, g) = (b2, s2, g2) # zs"
proof -
  from assms(1) obtain b1 xs where 1: "ms ic r1 (b, s, g) = (b1, s1, g1) # xs" by blast
  from assms(2)[of b1] obtain b2 ys where "ms ic r2 (b1, s1, g1) = (b2, s2, g2) # ys" by blast
  with 1 show ?thesis by auto
qed



lemma first_Lit_any: "\<exists>b' xs. ms ic (Lit c) (b, c # s, g) = (b', s, g) # xs"
  by (simp add: lit_eq_def)

lemma first_Class_any:
  "in_class ic cs c \<Longrightarrow> \<exists>b' xs. ms ic (Class cs) (b, c # s, g) = (b', s, g) # xs"
  by simp

lemma first_Many1_any:
  assumes "xs \<noteq> []" and "list_all (in_class ic cs) xs" and "s = [] \<or> \<not> in_class ic cs (hd s)"
  shows "\<exists>b' rest. ms ic (Many1 cs) (b, xs @ s, g) = (b', s, g) # rest"
  using first_Many1[OF assms, of b g] by blast

lemma first_Eps_any: "\<exists>b' xs. ms ic Eps (b, s, g) = (b', s, g) # xs"
  by simp

lemma first_Group_any:
  assumes "\<exists>b' xs. ms ic r (b, w @ s', g) = (b', s', g0) # xs"
  shows "\<exists>b' ys. ms ic (Group r) (b, w @ s', g) = (b', s', Some w) # ys"
  using assms by auto














section \<open>The status of a record\<close>

lemma truthy_account:
  "wfa_extract_account_number_from_filename fn = Inr a \<Longrightarrow> truthy a = (a \<noteq> None)"
  "bok_extract_account_number_from_filename fn = Inr a \<Longrightarrow> truthy a = (a \<noteq> None)"
  by (cases a; auto simp: truthy_def dest: wfa_account_nonempty bok_account_nonempty)+

text \<open>
  Claim C2.  In every record a parser returns, the status is the check mark exactly when
  the account number and the closing value are both present, and the warning sign
  otherwise: \<open>status_of\<close> tests the truth value of the account number, and an account
  number that is present is never the empty string.
\<close>

theorem status_iff_both_present:
  assumes "parse p d = Inr r"
  shows "(Status r = Complete \<longleftrightarrow> Account_Number r \<noteq> None \<and> Closing_Value r \<noteq> None)
       \<and> (Status r = Needs_Review \<longleftrightarrow> Account_Number r = None \<or> Closing_Value r = None)"
proof (cases p)
  case WFAParser
  with assms obtain a where a: "wfa_extract_account_number_from_filename (name d) = Inr a"
    and r: "r = \<lparr>Filename = name d, Account_Number = a,
                 Closing_Value = extract_closing_value (find_snapshot_page d),
                 Institution = Wells_Fargo_Advisors,
                 Status = status_of a (extract_closing_value (find_snapshot_page d))\<rparr>"
    by (auto simp: wfa_parse_def Let_def split: sum.splits)
  from truthy_account(1)[OF a] r show ?thesis
    by (simp add: status_of_def)
next
  case BOKFinancialParser
  with assms obtain a where a: "bok_extract_account_number_from_filename (name d) = Inr a"
    and r: "r = \<lparr>Filename = name d, Account_Number = a,
                 Closing_Value = extract_total_value (find_account_overview_page d),
                 Institution = BOK_Financial,
                 Status = status_of a (extract_total_value (find_account_overview_page d))\<rparr>"
    by (auto simp: bok_parse_def Let_def split: sum.splits)
  from truthy_account(2)[OF a] r show ?thesis
    by (simp add: status_of_def)
qed

text \<open>The four combinations: both fields present, no closing value, no account number,
  neither.\<close>

theorem status_iff_both_present_witness:
  "parse WFAParser \<lparr>name = ''Acme Re - 1234-5678.pdf'',
        page_texts = Some [Some ''Page 1 of 4 Closing value $10.00'']\<rparr>
     = Inr \<lparr>Filename = ''Acme Re - 1234-5678.pdf'', Account_Number = Some ''1234-5678'',
           Closing_Value = Some 10, Institution = Wells_Fargo_Advisors, Status = Complete\<rparr>
   \<and> parse WFAParser \<lparr>name = ''Acme Re - 1234-5678.pdf'', page_texts = Some [None]\<rparr>
     = Inr \<lparr>Filename = ''Acme Re - 1234-5678.pdf'', Account_Number = Some ''1234-5678'',
           Closing_Value = None, Institution = Wells_Fargo_Advisors, Status = Needs_Review\<rparr>
   \<and> parse BOKFinancialParser \<lparr>name = ''Acme Re.pdf'',
          page_texts = Some [Some ''Page 2 of 9 Account Overview Total 705,122.36'']\<rparr>
     = Inr \<lparr>Filename = ''Acme Re.pdf'', Account_Number = None,
           Closing_Value = Some (70512236 / 100), Institution = BOK_Financial,
           Status = Needs_Review\<rparr>
   \<and> parse BOKFinancialParser \<lparr>name = ''Acme Re.pdf'', page_texts = None\<rparr>
     = Inr \<lparr>Filename = ''Acme Re.pdf'', Account_Number = None,
           Closing_Value = None, Institution = BOK_Financial, Status = Needs_Review\<rparr>"
proof -
  have both: "parse WFAParser \<lparr>name = ''Acme Re - 1234-5678.pdf'',
        page_texts = Some [Some ''Page 1 of 4 Closing value $10.00'']\<rparr>
     = Inr \<lparr>Filename = ''Acme Re - 1234-5678.pdf'', Account_Number = Some ''1234-5678'',
           Closing_Value = Some 10, Institution = Wells_Fargo_Advisors, Status = Complete\<rparr>"
    by code_simp
  have no_value: "parse WFAParser \<lparr>name = ''Acme Re - 1234-5678.pdf'', page_texts = Some [None]\<rparr>
     = Inr \<lparr>Filename = ''Acme Re - 1234-5678.pdf'', Account_Number = Some ''1234-5678'',
           Closing_Value = None, Institution = Wells_Fargo_Advisors, Status = Needs_Review\<rparr>"
    by code_simp
  have no_account: "parse BOKFinancialParser \<lparr>name = ''Acme Re.pdf'',
          page_texts = Some [Some ''Page 2 of 9 Account Overview Total 705,122.36'']\<rparr>
     = Inr \<lparr>Filename = ''Acme Re.pdf'', Account_Number = None,
           Closing_Value = Some (70512236 / 100), Institution = BOK_Financial,
           Status = Needs_Review\<rparr>"
    by code_simp
  have neither: "parse BOKFinancialParser \<lparr>name = ''Acme Re.pdf'', page_texts = None\<rparr>
     = Inr \<lparr>Filename = ''Acme Re.pdf'', Account_Number = None,
           Closing_Value = None, Institution = BOK_Financial, Status = Needs_Review\<rparr>"
    by code_simp
  from status_iff_both_present[OF both] both no_value no_account neither show ?thesis
    by simp
qed

section \<open>The classifier\<close>








section \<open>The value extractors\<close>








section \<open>The Wells Fargo closing value\<close>














section \<open>The batch\<close>

text \<open>
  Claim C1 (a defect of the code).  A file name with nothing but whitespace after the last
  separator has an account section without a token; \<open>account_part.split()[0]\<close> raises
  \<open>IndexError\<close>, no parser catches it, and the loop of \<open>process_all_pdfs\<close> ends there
  without a record for this file or for the files after it.
\<close>

theorem empty_account_section_aborts_batch:
  "wfa_extract_account_number_from_filename ''Smith Trust - .pdf'' = Inl IndexError
   \<and> bok_extract_account_number_from_filename ''Smith Trust - .pdf'' = Inl IndexError
   \<and> extract_beneficiary_and_account ''Smith Trust - .pdf'' = Inl IndexError
   \<and> process_all_pdfs
        [\<lparr>name = ''Acme Re - 1234-5678.pdf'', page_texts = Some [Some ''Page 1 of 4 Closing value $10.00'']\<rparr>,
         \<lparr>name = ''Smith Trust - .pdf'', page_texts = Some [Some ''Page 1 of 4 Closing value $10.00'']\<rparr>,
         \<lparr>name = ''Zeta Re - 8765-4321.pdf'', page_texts = Some [Some ''Page 1 of 4 Closing value $10.00'']\<rparr>]
       = Inl IndexError"
proof -
  have 1: "wfa_extract_account_number_from_filename ''Smith Trust - .pdf'' = Inl IndexError"
    by code_simp
  have 2: "bok_extract_account_number_from_filename ''Smith Trust - .pdf'' = Inl IndexError"
    by code_simp
  have 3: "extract_beneficiary_and_account ''Smith Trust - .pdf'' = Inl IndexError"
    by code_simp
  have 4: "process_all_pdfs
        [\<lparr>name = ''Acme Re - 1234-5678.pdf'', page_texts = Some [Some ''Page 1 of 4 Closing value $10.00'']\<rparr>,
         \<lparr>name = ''Smith Trust - .pdf'', page_texts = Some [Some ''Page 1 of 4 Closing value $10.00'']\<rparr>,
         \<lparr>name = ''Zeta Re - 8765-4321.pdf'', page_texts = Some [Some ''Page 1 of 4 Closing value $10.00'']\<rparr>]
       = Inl IndexError"
    by code_simp
  from 1 2 3 4 show ?thesis by simp
qed

section \<open>The page locator of BOK Financial\<close>









section \<open>The fields of a file name\<close>

lemma lang_Seq_Eps: "lang ic (Seq r Eps) b w a \<longleftrightarrow> lang ic r b w a"
  by (simp add: lang.simps(4))

lemma lang_Seq_Opt_Eps:
  "lang ic (Seq (Opt r) Eps) b w a \<longleftrightarrow> w = [] \<or> lang ic r b w a"
  by (auto simp: lang.simps(4) Opt_def)

lemma lang_bok_account_pattern:
  "lang False bok_account_pattern b w a \<longleftrightarrow> dash_dot_form w"
proof
  assume "lang False bok_account_pattern b w a"
  then obtain d1 u1 where 1: "w = d1 @ u1" "d1 \<noteq> []" "list_all isdigit d1"
    and "lang False (Seq (Class [Chr CHR ''-'']) (Seq (Many1 [Digit]) (Seq (Lit CHR ''.'')
           (Seq (Many1 [Digit]) Eps)))) (rev d1 @ b) u1 a"
    unfolding bok_account_pattern_def lang.simps(7) Seqs.simps lang_Seq_Many1
    by (auto simp: in_class_exact)
  then obtain u2 where 2: "u1 = CHR ''-'' # u2"
    and "lang False (Seq (Many1 [Digit]) (Seq (Lit CHR ''.'') (Seq (Many1 [Digit]) Eps)))
           (CHR ''-'' # rev d1 @ b) u2 a"
    unfolding lang_Seq_single by (auto simp: in_class_exact)
  then obtain d2 u3 where 3: "u2 = d2 @ u3" "d2 \<noteq> []" "list_all isdigit d2"
    and "lang False (Seq (Lit CHR ''.'') (Seq (Many1 [Digit]) Eps))
           (rev d2 @ CHR ''-'' # rev d1 @ b) u3 a"
    unfolding lang_Seq_Many1 by (auto simp: in_class_exact)
  then obtain d3 where 4: "u3 = CHR ''.'' # d3" "d3 \<noteq> []" "list_all isdigit d3"
    unfolding lang_Seq_single lang_Seq_Eps lang_Many1 by (auto simp: in_class_exact lit_eq_def)
  from 1 2 3 4 have "w = d1 @ ''-'' @ d2 @ ''.'' @ d3" "digits d1" "digits d2" "digits d3"
    by (simp_all add: digits_def)
  then show "dash_dot_form w" unfolding dash_dot_form_def by blast
next
  assume "dash_dot_form w"
  then obtain d1 d2 d3 where w: "w = d1 @ ''-'' @ d2 @ ''.'' @ d3"
    and d: "d1 \<noteq> []" "list_all isdigit d1" "d2 \<noteq> []" "list_all isdigit d2"
      "d3 \<noteq> []" "list_all isdigit d3"
    unfolding dash_dot_form_def digits_def by blast
  have 4: "lang False (Seq (Lit CHR ''.'') (Seq (Many1 [Digit]) Eps)) b4 (CHR ''.'' # d3) a" for b4
    unfolding lang_Seq_single lang_Seq_Eps lang_Many1 using d(5,6)
    by (simp add: in_class_exact lit_eq_def)
  have 3: "lang False (Seq (Many1 [Digit]) (Seq (Lit CHR ''.'') (Seq (Many1 [Digit]) Eps)))
             b3 (d2 @ CHR ''.'' # d3) a" for b3
    unfolding lang_Seq_Many1 using d(3,4) 4 by (auto simp: in_class_exact)
  have 2: "lang False (Seq (Class [Chr CHR ''-'']) (Seq (Many1 [Digit]) (Seq (Lit CHR ''.'')
             (Seq (Many1 [Digit]) Eps)))) b2 (CHR ''-'' # d2 @ CHR ''.'' # d3) a" for b2
    unfolding lang_Seq_single using 3 by (simp add: in_class_exact)
  have "lang False (Seq (Many1 [Digit]) (Seq (Class [Chr CHR ''-'']) (Seq (Many1 [Digit])
          (Seq (Lit CHR ''.'') (Seq (Many1 [Digit]) Eps))))) b
          (d1 @ CHR ''-'' # d2 @ CHR ''.'' # d3) a"
    unfolding lang_Seq_Many1 using d(1,2) 2 by (auto simp: in_class_exact)
  with w show "lang False bok_account_pattern b w a"
    by (simp add: bok_account_pattern_def)
qed

lemma lang_dash_account_pattern:
  "lang False dash_account_pattern b w a \<longleftrightarrow> dash_form w"
proof
  assume "lang False dash_account_pattern b w a"
  then obtain d1 u1 where 1: "w = d1 @ u1" "d1 \<noteq> []" "list_all isdigit d1"
    and "lang False (Seq (Class [Chr CHR ''-'']) (Seq (Many1 [Digit])
           (Seq (Opt (Seq (Lit CHR ''.'') (Seq (Many1 [Digit]) Eps))) Eps))) (rev d1 @ b) u1 a"
    unfolding dash_account_pattern_def lang.simps(7) Seqs.simps lang_Seq_Many1
    by (auto simp: in_class_exact)
  then obtain u2 where 2: "u1 = CHR ''-'' # u2"
    and "lang False (Seq (Many1 [Digit]) (Seq (Opt (Seq (Lit CHR ''.'') (Seq (Many1 [Digit]) Eps))) Eps))
           (CHR ''-'' # rev d1 @ b) u2 a"
    unfolding lang_Seq_single by (auto simp: in_class_exact)
  then obtain d2 u3 where 3: "u2 = d2 @ u3" "d2 \<noteq> []" "list_all isdigit d2"
    and "u3 = [] \<or> lang False (Seq (Lit CHR ''.'') (Seq (Many1 [Digit]) Eps))
           (rev d2 @ CHR ''-'' # rev d1 @ b) u3 a"
    unfolding lang_Seq_Many1 lang_Seq_Opt_Eps by (auto simp: in_class_exact)
  then consider "u3 = []" | d3 where "u3 = CHR ''.'' # d3" "d3 \<noteq> []" "list_all isdigit d3"
    unfolding lang_Seq_single lang_Seq_Eps lang_Many1 by (auto simp: in_class_exact lit_eq_def)
  then show "dash_form w"
  proof cases
    case 1
    with \<open>w = d1 @ u1\<close> 2 3 have "w = d1 @ ''-'' @ d2" by simp
    with \<open>d1 \<noteq> []\<close> \<open>list_all isdigit d1\<close> 3 show ?thesis
      unfolding dash_form_def digits_def by blast
  next
    case (2 d3)
    with \<open>w = d1 @ u1\<close> \<open>u1 = CHR ''-'' # u2\<close> 3
    have "w = d1 @ ''-'' @ d2 @ ''.'' @ d3" by simp
    with \<open>d1 \<noteq> []\<close> \<open>list_all isdigit d1\<close> 3 2 have "dash_dot_form w"
      unfolding dash_dot_form_def digits_def by blast
    then show ?thesis by (simp add: dash_form_def)
  qed
next
  assume "dash_form w"
  then have "\<exists>d1 d2 u3. w = d1 @ CHR ''-'' # d2 @ u3
      \<and> d1 \<noteq> [] \<and> list_all isdigit d1 \<and> d2 \<noteq> [] \<and> list_all isdigit d2
      \<and> (u3 = [] \<or> (\<exists>d3. u3 = CHR ''.'' # d3 \<and> d3 \<noteq> [] \<and> list_all isdigit d3))"
    unfolding dash_form_def dash_dot_form_def digits_def
  proof (elim disjE exE conjE)
    fix d1 d2
    assume "w = d1 @ ''-'' @ d2" "d1 \<noteq> []" "list_all isdigit d1" "d2 \<noteq> []" "list_all isdigit d2"
    then show ?thesis by (intro exI[of _ d1] exI[of _ d2] exI[of _ "[]"]) simp
  next
    fix d1 d2 d3
    assume "w = d1 @ ''-'' @ d2 @ ''.'' @ d3" "d1 \<noteq> []" "list_all isdigit d1"
      "d2 \<noteq> []" "list_all isdigit d2" "d3 \<noteq> []" "list_all isdigit d3"
    then show ?thesis by (intro exI[of _ d1] exI[of _ d2] exI[of _ "CHR ''.'' # d3"]) simp
  qed
  then obtain d1 d2 u3 where w: "w = d1 @ CHR ''-'' # d2 @ u3"
    and d: "d1 \<noteq> []" "list_all isdigit d1" "d2 \<noteq> []" "list_all isdigit d2"
    and u3: "u3 = [] \<or> (\<exists>d3. u3 = CHR ''.'' # d3 \<and> d3 \<noteq> [] \<and> list_all isdigit d3)"
    by blast
  have 4: "u3 = [] \<or> lang False (Seq (Lit CHR ''.'') (Seq (Many1 [Digit]) Eps)) b4 u3 a" for b4
    unfolding lang_Seq_single lang_Seq_Eps lang_Many1 using u3
    by (auto simp: in_class_exact lit_eq_def)
  have 3: "lang False (Seq (Many1 [Digit]) (Seq (Opt (Seq (Lit CHR ''.'') (Seq (Many1 [Digit]) Eps))) Eps))
             b3 (d2 @ u3) a" for b3
    unfolding lang_Seq_Many1 lang_Seq_Opt_Eps using d(3,4) 4 by (auto simp: in_class_exact)
  have 2: "lang False (Seq (Class [Chr CHR ''-'']) (Seq (Many1 [Digit])
             (Seq (Opt (Seq (Lit CHR ''.'') (Seq (Many1 [Digit]) Eps))) Eps))) b2
             (CHR ''-'' # d2 @ u3) a" for b2
    unfolding lang_Seq_single using 3 by (simp add: in_class_exact)
  have "lang False (Seq (Many1 [Digit]) (Seq (Class [Chr CHR ''-'']) (Seq (Many1 [Digit])
          (Seq (Opt (Seq (Lit CHR ''.'') (Seq (Many1 [Digit]) Eps))) Eps)))) b
          (d1 @ CHR ''-'' # d2 @ u3) a"
    unfolding lang_Seq_Many1 using d(1,2) 2 by (auto simp: in_class_exact)
  with w show "lang False dash_account_pattern b w a"
    by (simp add: dash_account_pattern_def)
qed

lemma rfind_found:
  "i \<le> n \<Longrightarrow> take (length sep) (drop i s) = sep \<Longrightarrow> rfind sep s n \<noteq> None"
proof (induction n)
  case 0
  then show ?case by simp
next
  case (Suc n)
  show ?case
  proof (cases "i = Suc n")
    case True
    with Suc.prems show ?thesis by simp
  next
    case False
    with Suc.prems have "i \<le> n" by simp
    from Suc.IH[OF this Suc.prems(2)] show ?thesis by simp
  qed
qed

lemma rsplit1_two_parts:
  assumes "str_contains sep s"
  shows "length (str_rsplit1 s sep) = 2"
proof -
  from assms obtain pre post where s: "s = pre @ sep @ post"
    unfolding str_contains_iff by blast
  then have "length pre \<le> length s - length sep"
    and "take (length sep) (drop (length pre) s) = sep"
    by simp_all
  from rfind_found[OF this] show ?thesis
    by (auto simp: str_rsplit1_def)
qed

lemma search_account_None:
  assumes "\<And>b w a. lang False r b w a \<longleftrightarrow> form w"
  shows "re_search False (Group r) s = None \<longleftrightarrow> \<not> occurs_in form s"
proof -
  have "re_search False (Group r) s = None
          \<longleftrightarrow> (\<forall>pre w a. s = pre @ w @ a \<longrightarrow> \<not> form w)"
    unfolding re_search_None_iff lang.simps(7) assms ..
  also have "\<dots> \<longleftrightarrow> \<not> occurs_in form s"
    unfolding occurs_in_def by blast
  finally show ?thesis .
qed

subsection \<open>The match is the longest text of the format at its place\<close>

lemma re_search_Group_at:
  assumes "re_search ic (Group r) s = Some m"
  shows "\<exists>pre w. s = pre @ w @ remaining m \<and> group1 m = Some w
           \<and> lang ic r (rev pre) w (remaining m)
           \<and> match_at ic (Group r) (rev pre) (w @ remaining m) = Some m
           \<and> (\<forall>pre' w' a'. s = pre' @ w' @ a' \<and> length pre' < length pre
                  \<longrightarrow> \<not> lang ic r (rev pre') w' a')"
proof -
  from search_from_Some[OF assms[unfolded re_search_def]] obtain pre
    where at: "match_at ic (Group r) (rev pre) (drop (length pre) s) = Some m"
      and pre: "pre = take (length pre) s"
      and left: "\<forall>pre' w' a'. s = pre' @ w' @ a' \<and> length pre' < length pre
                  \<longrightarrow> \<not> lang ic (Group r) (rev pre') w' a'"
    by auto
  from match_at_Group_Some[OF at] obtain w
    where w: "drop (length pre) s = w @ remaining m" "group1 m = Some w"
      "lang ic r (rev pre) w (remaining m)"
    by blast
  from pre w(1) have "s = pre @ w @ remaining m"
    by (metis append_take_drop_id)
  with w at left show ?thesis by auto
qed

lemma first_Alt_left:
  assumes "\<exists>b' xs. ms ic r1 st = (b', s', g') # xs"
  shows "\<exists>b' xs. ms ic (Alt r1 r2) st = (b', s', g') # xs"
  using assms by auto

lemma first_Alt_right:
  assumes "ms ic r1 st = []" and "\<exists>b' xs. ms ic r2 st = (b', s', g') # xs"
  shows "\<exists>b' xs. ms ic (Alt r1 r2) st = (b', s', g') # xs"
  using assms by auto

lemma no_decimal_suffix:
  assumes "\<not> (\<exists>x t'. t = CHR ''.'' # x # t' \<and> isdigit x)"
  shows "ms False (Seqs [Lit CHR ''.'', Many1 [Digit]]) (b, t, g) = []"
proof (cases t)
  case Nil
  then show ?thesis by simp
next
  case (Cons y t1)
  show ?thesis
  proof (cases t1)
    case Nil
    with Cons show ?thesis by (simp add: Many1_def lit_eq_def)
  next
    case (Cons x t')
    with \<open>t = y # t1\<close> assms have "y \<noteq> CHR ''.'' \<or> \<not> isdigit x" by auto
    with Cons \<open>t = y # t1\<close> show ?thesis
      by (auto simp: Many1_def lit_eq_def in_class_exact)
  qed
qed

lemma first_digits:
  assumes "d \<noteq> []" "list_all isdigit d" "t = [] \<or> \<not> isdigit (hd t)"
  shows "\<exists>b' xs. ms False (Many1 [Digit]) (b, d @ t, g) = (b', t, g) # xs"
  using assms by (intro first_Many1_any) (simp_all add: in_class_exact)

lemma first_decimal_suffix:
  assumes "d3 \<noteq> []" "list_all isdigit d3" "t = [] \<or> \<not> isdigit (hd t)"
  shows "\<exists>b' xs. ms False (Seqs [Lit CHR ''.'', Many1 [Digit]]) (b, CHR ''.'' # d3 @ t, g)
                    = (b', t, g) # xs"
proof -
  have 2: "\<exists>b' xs. ms False (Seq (Many1 [Digit]) Eps) (b2, d3 @ t, g) = (b', t, g) # xs" for b2
    by (intro first_Seq_any[where ?s1.0 = t and ?g1.0 = g] first_digits assms first_Eps_any)
  show ?thesis
    unfolding Seqs.simps
    by (intro first_Seq_any[where ?s1.0 = "d3 @ t" and ?g1.0 = g] first_Lit_any 2)
qed

lemma first_with_suffix:
  assumes "d1 \<noteq> []" "list_all isdigit d1" "d2 \<noteq> []" "list_all isdigit d2"
    and "d3 \<noteq> []" "list_all isdigit d3"
    and "in_class False cs c" "\<not> isdigit c" and "t = [] \<or> \<not> isdigit (hd t)"
  shows "\<exists>b' xs. ms False (Seqs [Many1 [Digit], Class cs, Many1 [Digit],
                     Opt (Seqs [Lit CHR ''.'', Many1 [Digit]])])
                    (b, d1 @ c # d2 @ CHR ''.'' # d3 @ t, g) = (b', t, g) # xs"
proof -
  have dot: "\<not> isdigit CHR ''.''" by code_simp
  have 4: "\<exists>b' xs. ms False (Seq (Opt (Seqs [Lit CHR ''.'', Many1 [Digit]])) Eps)
             (b4, CHR ''.'' # d3 @ t, g) = (b', t, g) # xs" for b4
    unfolding Opt_def
    by (intro first_Seq_any[where ?s1.0 = t and ?g1.0 = g] first_Alt_left
        first_decimal_suffix assms first_Eps_any)
  have 3: "\<exists>b' xs. ms False (Seq (Many1 [Digit]) (Seq (Opt (Seqs [Lit CHR ''.'', Many1 [Digit]])) Eps))
             (b3, d2 @ CHR ''.'' # d3 @ t, g) = (b', t, g) # xs" for b3
    using dot
    by (intro first_Seq_any[where ?s1.0 = "CHR ''.'' # d3 @ t" and ?g1.0 = g] first_digits
        assms 4) simp
  have 2: "\<exists>b' xs. ms False (Seq (Class cs) (Seq (Many1 [Digit])
             (Seq (Opt (Seqs [Lit CHR ''.'', Many1 [Digit]])) Eps)))
             (b2, c # d2 @ CHR ''.'' # d3 @ t, g) = (b', t, g) # xs" for b2
    by (intro first_Seq_any[where ?s1.0 = "d2 @ CHR ''.'' # d3 @ t" and ?g1.0 = g]
        first_Class_any assms 3)
  show ?thesis
    unfolding Seqs.simps(2)[of "Many1 [Digit]"] Seqs.simps(2)[of "Class cs"]
      Seqs.simps(2)[of "Many1 [Digit]" "[Opt (Seqs [Lit CHR ''.'', Many1 [Digit]])]"]
      Seqs.simps(2)[of "Opt (Seqs [Lit CHR ''.'', Many1 [Digit]])" "[]"] Seqs.simps(1)
    using assms(8)
    by (intro first_Seq_any[where ?s1.0 = "c # d2 @ CHR ''.'' # d3 @ t" and ?g1.0 = g]
        first_digits assms 2) simp
qed

lemma first_without_suffix:
  assumes "d1 \<noteq> []" "list_all isdigit d1" "d2 \<noteq> []" "list_all isdigit d2"
    and "in_class False cs c" "\<not> isdigit c" and "t = [] \<or> \<not> isdigit (hd t)"
    and "\<not> (\<exists>x t'. t = CHR ''.'' # x # t' \<and> isdigit x)"
  shows "\<exists>b' xs. ms False (Seqs [Many1 [Digit], Class cs, Many1 [Digit],
                     Opt (Seqs [Lit CHR ''.'', Many1 [Digit]])])
                    (b, d1 @ c # d2 @ t, g) = (b', t, g) # xs"
proof -
  have 4: "\<exists>b' xs. ms False (Seq (Opt (Seqs [Lit CHR ''.'', Many1 [Digit]])) Eps)
             (b4, t, g) = (b', t, g) # xs" for b4
    unfolding Opt_def
    by (intro first_Seq_any[where ?s1.0 = t and ?g1.0 = g] first_Alt_right
        no_decimal_suffix assms first_Eps_any)
  have 3: "\<exists>b' xs. ms False (Seq (Many1 [Digit]) (Seq (Opt (Seqs [Lit CHR ''.'', Many1 [Digit]])) Eps))
             (b3, d2 @ t, g) = (b', t, g) # xs" for b3
    by (intro first_Seq_any[where ?s1.0 = t and ?g1.0 = g] first_digits assms 4)
  have 2: "\<exists>b' xs. ms False (Seq (Class cs) (Seq (Many1 [Digit])
             (Seq (Opt (Seqs [Lit CHR ''.'', Many1 [Digit]])) Eps)))
             (b2, c # d2 @ t, g) = (b', t, g) # xs" for b2
    by (intro first_Seq_any[where ?s1.0 = "d2 @ t" and ?g1.0 = g]
        first_Class_any assms 3)
  show ?thesis
    unfolding Seqs.simps(2)[of "Many1 [Digit]"] Seqs.simps(2)[of "Class cs"]
      Seqs.simps(2)[of "Many1 [Digit]" "[Opt (Seqs [Lit CHR ''.'', Many1 [Digit]])]"]
      Seqs.simps(2)[of "Opt (Seqs [Lit CHR ''.'', Many1 [Digit]])" "[]"] Seqs.simps(1)
    using assms(6)
    by (intro first_Seq_any[where ?s1.0 = "c # d2 @ t" and ?g1.0 = g]
        first_digits assms 2) simp
qed

lemma first_dash_dot:
  assumes "d1 \<noteq> []" "list_all isdigit d1" "d2 \<noteq> []" "list_all isdigit d2"
    and "d3 \<noteq> []" "list_all isdigit d3" and "t = [] \<or> \<not> isdigit (hd t)"
  shows "\<exists>b' xs. ms False (Seqs [Many1 [Digit], Class [Chr CHR ''-''], Many1 [Digit],
                     Lit CHR ''.'', Many1 [Digit]])
                    (b, d1 @ CHR ''-'' # d2 @ CHR ''.'' # d3 @ t, g) = (b', t, g) # xs"
proof -
  have dot: "\<not> isdigit CHR ''.''" and dash: "\<not> isdigit CHR ''-''" by code_simp+
  have 4: "\<exists>b' xs. ms False (Seqs [Lit CHR ''.'', Many1 [Digit]])
             (b4, CHR ''.'' # d3 @ t, g) = (b', t, g) # xs" for b4
    by (intro first_decimal_suffix assms)
  have 3: "\<exists>b' xs. ms False (Seq (Many1 [Digit]) (Seqs [Lit CHR ''.'', Many1 [Digit]]))
             (b3, d2 @ CHR ''.'' # d3 @ t, g) = (b', t, g) # xs" for b3
    using dot
    by (intro first_Seq_any[where ?s1.0 = "CHR ''.'' # d3 @ t" and ?g1.0 = g] first_digits
        assms 4) simp
  have 2: "\<exists>b' xs. ms False (Seq (Class [Chr CHR ''-'']) (Seq (Many1 [Digit])
             (Seqs [Lit CHR ''.'', Many1 [Digit]])))
             (b2, CHR ''-'' # d2 @ CHR ''.'' # d3 @ t, g) = (b', t, g) # xs" for b2
    by (intro first_Seq_any[where ?s1.0 = "d2 @ CHR ''.'' # d3 @ t" and ?g1.0 = g]
        first_Class_any 3) (simp add: in_class_exact)
  have "\<exists>b' xs. ms False (Seq (Many1 [Digit]) (Seq (Class [Chr CHR ''-'']) (Seq (Many1 [Digit])
             (Seqs [Lit CHR ''.'', Many1 [Digit]]))))
             (b, d1 @ CHR ''-'' # d2 @ CHR ''.'' # d3 @ t, g) = (b', t, g) # xs"
    using dash
    by (intro first_Seq_any[where ?s1.0 = "CHR ''-'' # d2 @ CHR ''.'' # d3 @ t" and ?g1.0 = g]
        first_digits assms 2) simp
  then show ?thesis by simp
qed

lemma group_match_at:
  assumes "\<exists>b' xs. ms False r (b, w @ t, None) = (b', t, None) # xs"
  shows "match_at False (Group r) b (w @ t) = Some \<lparr>group1 = Some w, remaining = t\<rparr>"
proof -
  from first_Group_any[OF assms]
  obtain b' ys where "ms False (Group r) (b, w @ t, None) = (b', t, Some w) # ys" by blast
  then show ?thesis by (simp add: match_at_def)
qed

lemma digit_run_unique:
  assumes "list_all isdigit d" "list_all isdigit d'" "\<not> isdigit x" "\<not> isdigit y"
    and "d @ x # r = d' @ y # r'"
  shows "d = d' \<and> x = y \<and> r = r'"
proof -
  from assms(1,3) have "takeWhile isdigit (d @ x # r) = d"
    by (simp add: takeWhile_append2 list_all_iff)
  moreover from assms(2,4) have "takeWhile isdigit (d' @ y # r') = d'"
    by (simp add: takeWhile_append2 list_all_iff)
  ultimately have "d = d'" using assms(5) by simp
  with assms(5) show ?thesis by simp
qed

lemma digit_prefix_le:
  assumes "list_all isdigit d'" and "d @ post = d' @ post'"
    and "post = [] \<or> \<not> isdigit (hd post)"
  shows "length d' \<le> length d"
proof (rule ccontr)
  assume "\<not> length d' \<le> length d"
  then have "length d < length d'" by simp
  with assms(2) obtain u where u: "d' = d @ u" "u \<noteq> []" "post = u @ post'"
    by (auto simp: append_eq_append_conv2)
  then have "hd post = hd u" "hd u \<in> set d'" by (cases u; simp)+
  with assms(1) have "isdigit (hd post)" by (simp add: list_all_iff)
  with assms(3) u show False by simp
qed

lemma digit_run_split:
  "\<exists>e t. post = e @ t \<and> list_all isdigit e \<and> (t = [] \<or> \<not> isdigit (hd t))"
proof (intro exI conjI)
  show "post = takeWhile isdigit post @ dropWhile isdigit post" by simp
  show "list_all isdigit (takeWhile isdigit post)"
    by (simp add: list_all_iff) (meson set_takeWhileD)
  show "dropWhile isdigit post = [] \<or> \<not> isdigit (hd (dropWhile isdigit post))"
    using hd_dropWhile by blast
qed

lemma append_longer:
  assumes "xs @ ys = xs' @ ys'" and "length xs' < length xs"
  shows "\<exists>v. xs = xs' @ v \<and> v \<noteq> [] \<and> ys' = v @ ys"
  using assms by (auto simp: append_eq_append_conv2)

lemma dash_dot_longest:
  assumes at: "match_at False bok_account_pattern b (w @ remaining m) = Some m"
    and g: "group1 m = Some w"
    and w: "dash_dot_form w" and w': "dash_dot_form w'" and eq: "w @ remaining m = w' @ post'"
  shows "length w' \<le> length w"
proof -
  define post where "post = remaining m"
  have dot: "\<not> isdigit CHR ''.''" and dash: "\<not> isdigit CHR ''-''" by code_simp+
  from w obtain d1 d2 d3 where shape: "w = d1 @ CHR ''-'' # d2 @ CHR ''.'' # d3"
    and d: "d1 \<noteq> []" "list_all isdigit d1" "d2 \<noteq> []" "list_all isdigit d2"
      "d3 \<noteq> []" "list_all isdigit d3"
    unfolding dash_dot_form_def digits_def by auto
  obtain e t where et: "post = e @ t" "list_all isdigit e" "t = [] \<or> \<not> isdigit (hd t)"
    using digit_run_split by blast
  have "\<exists>b' xs. ms False (Seqs [Many1 [Digit], Class [Chr CHR ''-''], Many1 [Digit],
                     Lit CHR ''.'', Many1 [Digit]])
          (b, d1 @ CHR ''-'' # d2 @ CHR ''.'' # (d3 @ e) @ t, None) = (b', t, None) # xs"
    using d et by (intro first_dash_dot) simp_all
  then have "\<exists>b' xs. ms False (Seqs [Many1 [Digit], Class [Chr CHR ''-''], Many1 [Digit],
                     Lit CHR ''.'', Many1 [Digit]])
          (b, (w @ e) @ t, None) = (b', t, None) # xs"
    by (simp add: shape)
  from group_match_at[OF this]
  have "match_at False bok_account_pattern b (w @ post) = Some \<lparr>group1 = Some (w @ e), remaining = t\<rparr>"
    by (simp add: bok_account_pattern_def et)
  with at g have "e = []" by (auto simp: post_def)
  with et have end1: "post = [] \<or> \<not> isdigit (hd post)" by simp
  from w' obtain d1' d2' d3' where shape': "w' = d1' @ CHR ''-'' # d2' @ CHR ''.'' # d3'"
    and d': "d1' \<noteq> []" "list_all isdigit d1'" "d2' \<noteq> []" "list_all isdigit d2'"
      "d3' \<noteq> []" "list_all isdigit d3'"
    unfolding dash_dot_form_def digits_def by auto
  from eq have "d1 @ CHR ''-'' # (d2 @ CHR ''.'' # d3 @ post)
                  = d1' @ CHR ''-'' # (d2' @ CHR ''.'' # d3' @ post')"
    by (simp add: shape shape' post_def)
  from digit_run_unique[OF d(2) d'(2) dash dash this]
  have 1: "d1 = d1'" and "d2 @ CHR ''.'' # (d3 @ post) = d2' @ CHR ''.'' # (d3' @ post')" by simp_all
  from digit_run_unique[OF d(4) d'(4) dot dot this(2)]
  have 2: "d2 = d2'" and "d3 @ post = d3' @ post'" by simp_all
  from digit_prefix_le[OF d'(6) this(2) end1] have "length d3' \<le> length d3" .
  with 1 2 show ?thesis by (simp add: shape shape')
qed

lemma suffix_form_longest:
  assumes cs: "\<And>c. in_class False cs c \<Longrightarrow> \<not> isdigit c"
    and at: "match_at False (Group (Seqs [Many1 [Digit], Class cs, Many1 [Digit],
                     Opt (Seqs [Lit CHR ''.'', Many1 [Digit]])])) b (w @ remaining m) = Some m"
    and g: "group1 m = Some w"
    and shape: "w = d1 @ c # d2 @ u" "in_class False cs c"
      "d1 \<noteq> []" "list_all isdigit d1" "d2 \<noteq> []" "list_all isdigit d2"
      "u = [] \<or> (\<exists>d3. u = CHR ''.'' # d3 \<and> d3 \<noteq> [] \<and> list_all isdigit d3)"
    and shape': "w' = d1' @ c' # d2' @ u'" "in_class False cs c'"
      "d1' \<noteq> []" "list_all isdigit d1'" "d2' \<noteq> []" "list_all isdigit d2'"
      "u' = [] \<or> (\<exists>d3. u' = CHR ''.'' # d3 \<and> d3 \<noteq> [] \<and> list_all isdigit d3)"
    and eq: "w @ remaining m = w' @ post'"
  shows "length w' \<le> length w"
proof -
  define post where "post = remaining m"
  let ?r = "Seqs [Many1 [Digit], Class cs, Many1 [Digit], Opt (Seqs [Lit CHR ''.'', Many1 [Digit]])]"
  have dot: "\<not> isdigit CHR ''.''" by code_simp
  from cs shape(2) shape'(2) have c: "\<not> isdigit c" "\<not> isdigit c'" by simp_all
  have ends: "(post = [] \<or> \<not> isdigit (hd post))
              \<and> (u = [] \<longrightarrow> \<not> (\<exists>x t'. post = CHR ''.'' # x # t' \<and> isdigit x))"
  proof (cases "u = []")
    case False
    with shape(7) obtain d3 where u: "u = CHR ''.'' # d3" "d3 \<noteq> []" "list_all isdigit d3"
      by blast
    obtain e t where et: "post = e @ t" "list_all isdigit e" "t = [] \<or> \<not> isdigit (hd t)"
      using digit_run_split by blast
    have "\<exists>b' xs. ms False ?r (b, d1 @ c # d2 @ CHR ''.'' # (d3 @ e) @ t, None) = (b', t, None) # xs"
      using shape u et c by (intro first_with_suffix) simp_all
    then have "\<exists>b' xs. ms False ?r (b, (w @ e) @ t, None) = (b', t, None) # xs"
      by (simp add: shape(1) u)
    from group_match_at[OF this]
    have "match_at False (Group ?r) b (w @ post) = Some \<lparr>group1 = Some (w @ e), remaining = t\<rparr>"
      by (simp add: et)
    with at g have "e = []" by (auto simp: post_def)
    with et False show ?thesis by simp
  next
    case True
    obtain e t where et: "post = e @ t" "list_all isdigit e" "t = [] \<or> \<not> isdigit (hd t)"
      using digit_run_split by blast
    have no: "\<not> (\<exists>x t'. t = CHR ''.'' # x # t' \<and> isdigit x)"
    proof
      assume "\<exists>x t'. t = CHR ''.'' # x # t' \<and> isdigit x"
      then obtain x t' where t: "t = CHR ''.'' # x # t'" "isdigit x" by blast
      obtain e2 t2 where et2: "t' = e2 @ t2" "list_all isdigit e2" "t2 = [] \<or> \<not> isdigit (hd t2)"
        using digit_run_split by blast
      have "\<exists>b' xs. ms False ?r (b, d1 @ c # (d2 @ e) @ CHR ''.'' # (x # e2) @ t2, None)
              = (b', t2, None) # xs"
        using shape et et2 t c by (intro first_with_suffix) simp_all
      then have "\<exists>b' xs. ms False ?r (b, (w @ e @ CHR ''.'' # x # e2) @ t2, None)
              = (b', t2, None) # xs"
        by (simp add: shape(1) True)
      from group_match_at[OF this]
      have "match_at False (Group ?r) b (w @ post)
              = Some \<lparr>group1 = Some (w @ e @ CHR ''.'' # x # e2), remaining = t2\<rparr>"
        by (simp add: et t et2)
      with at g show False by (auto simp: post_def)
    qed
    have "\<exists>b' xs. ms False ?r (b, d1 @ c # (d2 @ e) @ t, None) = (b', t, None) # xs"
      using shape et c no by (intro first_without_suffix) simp_all
    then have "\<exists>b' xs. ms False ?r (b, (w @ e) @ t, None) = (b', t, None) # xs"
      by (simp add: shape(1) True)
    from group_match_at[OF this]
    have "match_at False (Group ?r) b (w @ post) = Some \<lparr>group1 = Some (w @ e), remaining = t\<rparr>"
      by (simp add: et)
    with at g have "e = []" by (auto simp: post_def)
    with et no True show ?thesis by simp
  qed
  from eq have "d1 @ c # (d2 @ u @ post) = d1' @ c' # (d2' @ u' @ post')"
    by (simp add: shape(1) shape'(1) post_def)
  from digit_run_unique[OF shape(4) shape'(4) c this]
  have 1: "d1 = d1'" "c = c'" and rest: "d2 @ (u @ post) = d2' @ (u' @ post')" by simp_all
  have "u @ post = [] \<or> \<not> isdigit (hd (u @ post))"
    using shape(7) ends dot by auto
  from digit_prefix_le[OF shape'(6) rest this] have le: "length d2' \<le> length d2" .
  show ?thesis
  proof (cases "length d2' < length d2")
    case True
    from append_longer[OF rest True]
    obtain v where v: "d2 = d2' @ v" "v \<noteq> []" "u' @ post' = v @ (u @ post)"
      by blast
    then have "hd (u' @ post') = hd v" "hd v \<in> set d2" by (cases v; simp)+
    with shape(6) have "isdigit (hd (u' @ post'))" by (simp add: list_all_iff)
    with shape'(7) dot have "u' = []" by auto
    with 1 True show ?thesis by (simp add: shape(1) shape'(1))
  next
    case False
    with le have "length d2' = length d2" by simp
    with rest have 2: "d2 = d2'" and rest2: "u @ post = u' @ post'" by simp_all
    show ?thesis
    proof (cases "u' = []")
      case True
      with 1 2 show ?thesis by (simp add: shape(1) shape'(1))
    next
      case False
      with shape'(7) obtain d3' where u': "u' = CHR ''.'' # d3'" "d3' \<noteq> []" "list_all isdigit d3'"
        by blast
      show ?thesis
      proof (cases "u = []")
        case True
        with rest2 u' have "post = CHR ''.'' # hd d3' # (tl d3' @ post')" "isdigit (hd d3')"
          by (cases d3'; simp)+
        with ends True show ?thesis by blast
      next
        case False
        with shape(7) obtain d3 where u: "u = CHR ''.'' # d3" "d3 \<noteq> []" "list_all isdigit d3"
          by blast
        with rest2 u' have "d3 @ post = d3' @ post'" by simp
        from digit_prefix_le[OF u'(3) this] ends have "length d3' \<le> length d3" by simp
        with 1 2 u u' show ?thesis by (simp add: shape(1) shape'(1))
      qed
    qed
  qed
qed

lemma search_account_longest:
  assumes s: "re_search False (Group r) s = Some m"
    and form: "\<And>b w a. lang False r b w a \<longleftrightarrow> form w"
    and longest: "\<And>b w w' post'. match_at False (Group r) b (w @ remaining m) = Some m
        \<Longrightarrow> group1 m = Some w \<Longrightarrow> form w \<Longrightarrow> form w' \<Longrightarrow> w @ remaining m = w' @ post'
        \<Longrightarrow> length w' \<le> length w"
  shows "\<exists>w. group1 m = Some w \<and> leftmost_longest_in form s w"
proof -
  from re_search_Group_at[OF s] obtain pre w
    where split: "s = pre @ w @ remaining m" and g: "group1 m = Some w"
      and l: "lang False r (rev pre) w (remaining m)"
      and at: "match_at False (Group r) (rev pre) (w @ remaining m) = Some m"
      and left: "\<forall>pre' w' a'. s = pre' @ w' @ a' \<and> length pre' < length pre
                  \<longrightarrow> \<not> lang False r (rev pre') w' a'"
    by blast
  from l form have w: "form w" by simp
  have "length pre < length pre' \<or> (length pre = length pre' \<and> length w' \<le> length w)"
    if that: "s = pre' @ w' @ post'" "form w'" for pre' w' post'
  proof (cases "length pre' < length pre")
    case True
    with that left have "\<not> lang False r (rev pre') w' post'" by simp
    with that(2) form show ?thesis by simp
  next
    case False
    show ?thesis
    proof (cases "length pre = length pre'")
      case True
      with split that(1) have "pre = pre'" "w @ remaining m = w' @ post'" by simp_all
      from longest[OF at g w that(2) this(2)] True show ?thesis by simp
    next
      case ne: False
      with False show ?thesis by simp
    qed
  qed
  with split w have "leftmost_longest_in form s w"
    unfolding leftmost_longest_in_def by blast
  with g show ?thesis by blast
qed

lemma dash_form_shape:
  "dash_form w \<longleftrightarrow> (\<exists>d1 d2 u. w = d1 @ CHR ''-'' # d2 @ u
      \<and> d1 \<noteq> [] \<and> list_all isdigit d1 \<and> d2 \<noteq> [] \<and> list_all isdigit d2
      \<and> (u = [] \<or> (\<exists>d3. u = CHR ''.'' # d3 \<and> d3 \<noteq> [] \<and> list_all isdigit d3)))"
proof
  assume "dash_form w"
  then show "\<exists>d1 d2 u. w = d1 @ CHR ''-'' # d2 @ u
      \<and> d1 \<noteq> [] \<and> list_all isdigit d1 \<and> d2 \<noteq> [] \<and> list_all isdigit d2
      \<and> (u = [] \<or> (\<exists>d3. u = CHR ''.'' # d3 \<and> d3 \<noteq> [] \<and> list_all isdigit d3))"
    unfolding dash_form_def dash_dot_form_def digits_def
  proof (elim disjE exE conjE)
    fix d1 d2
    assume "w = d1 @ ''-'' @ d2" "d1 \<noteq> []" "list_all isdigit d1" "d2 \<noteq> []" "list_all isdigit d2"
    then show ?thesis by (intro exI[of _ d1] exI[of _ d2] exI[of _ "[]"]) simp
  next
    fix d1 d2 d3
    assume "w = d1 @ ''-'' @ d2 @ ''.'' @ d3" "d1 \<noteq> []" "list_all isdigit d1"
      "d2 \<noteq> []" "list_all isdigit d2" "d3 \<noteq> []" "list_all isdigit d3"
    then show ?thesis by (intro exI[of _ d1] exI[of _ d2] exI[of _ "CHR ''.'' # d3"]) simp
  qed
next
  assume "\<exists>d1 d2 u. w = d1 @ CHR ''-'' # d2 @ u
      \<and> d1 \<noteq> [] \<and> list_all isdigit d1 \<and> d2 \<noteq> [] \<and> list_all isdigit d2
      \<and> (u = [] \<or> (\<exists>d3. u = CHR ''.'' # d3 \<and> d3 \<noteq> [] \<and> list_all isdigit d3))"
  then obtain d1 d2 u where w: "w = d1 @ CHR ''-'' # d2 @ u"
    and d: "digits d1" "digits d2"
    and u: "u = [] \<or> (\<exists>d3. u = CHR ''.'' # d3 \<and> digits d3)"
    unfolding digits_def by blast
  from u show "dash_form w"
  proof
    assume "u = []"
    with w have "w = d1 @ ''-'' @ d2" by simp
    with d show ?thesis unfolding dash_form_def by blast
  next
    assume "\<exists>d3. u = CHR ''.'' # d3 \<and> digits d3"
    then obtain d3 where "u = CHR ''.'' # d3" "digits d3" by blast
    with w have "w = d1 @ ''-'' @ d2 @ ''.'' @ d3" by simp
    with d \<open>digits d3\<close> have "dash_dot_form w" unfolding dash_dot_form_def by blast
    then show ?thesis by (simp add: dash_form_def)
  qed
qed

lemma dash_or_point_form_shape:
  "dash_or_point_form w \<longleftrightarrow> (\<exists>d1 c d2 u. w = d1 @ c # d2 @ u \<and> (c = CHR ''-'' \<or> c = CHR ''.'')
      \<and> d1 \<noteq> [] \<and> list_all isdigit d1 \<and> d2 \<noteq> [] \<and> list_all isdigit d2
      \<and> (u = [] \<or> (\<exists>d3. u = CHR ''.'' # d3 \<and> d3 \<noteq> [] \<and> list_all isdigit d3)))"
proof
  assume "dash_or_point_form w"
  then obtain d1 c d2 where c: "c = CHR ''-'' \<or> c = CHR ''.''" and d: "digits d1" "digits d2"
    and w: "w = d1 @ [c] @ d2 \<or> (\<exists>d3. digits d3 \<and> w = d1 @ [c] @ d2 @ ''.'' @ d3)"
    unfolding dash_or_point_form_def by blast
  from w show "\<exists>d1 c d2 u. w = d1 @ c # d2 @ u \<and> (c = CHR ''-'' \<or> c = CHR ''.'')
      \<and> d1 \<noteq> [] \<and> list_all isdigit d1 \<and> d2 \<noteq> [] \<and> list_all isdigit d2
      \<and> (u = [] \<or> (\<exists>d3. u = CHR ''.'' # d3 \<and> d3 \<noteq> [] \<and> list_all isdigit d3))"
  proof
    assume "w = d1 @ [c] @ d2"
    with c d show ?thesis
      unfolding digits_def by (intro exI[of _ d1] exI[of _ c] exI[of _ d2] exI[of _ "[]"]) simp
  next
    assume "\<exists>d3. digits d3 \<and> w = d1 @ [c] @ d2 @ ''.'' @ d3"
    then obtain d3 where "digits d3" "w = d1 @ [c] @ d2 @ ''.'' @ d3" by blast
    with c d show ?thesis
      unfolding digits_def
      by (intro exI[of _ d1] exI[of _ c] exI[of _ d2] exI[of _ "CHR ''.'' # d3"]) simp
  qed
next
  assume "\<exists>d1 c d2 u. w = d1 @ c # d2 @ u \<and> (c = CHR ''-'' \<or> c = CHR ''.'')
      \<and> d1 \<noteq> [] \<and> list_all isdigit d1 \<and> d2 \<noteq> [] \<and> list_all isdigit d2
      \<and> (u = [] \<or> (\<exists>d3. u = CHR ''.'' # d3 \<and> d3 \<noteq> [] \<and> list_all isdigit d3))"
  then obtain d1 c d2 u where w: "w = d1 @ c # d2 @ u" and c: "c = CHR ''-'' \<or> c = CHR ''.''"
    and d: "digits d1" "digits d2"
    and u: "u = [] \<or> (\<exists>d3. u = CHR ''.'' # d3 \<and> digits d3)"
    unfolding digits_def by blast
  from u show "dash_or_point_form w"
  proof
    assume "u = []"
    with w have "w = d1 @ [c] @ d2" by simp
    with c d show ?thesis unfolding dash_or_point_form_def by blast
  next
    assume "\<exists>d3. u = CHR ''.'' # d3 \<and> digits d3"
    then obtain d3 where "digits d3" "u = CHR ''.'' # d3" by blast
    with w have "w = d1 @ [c] @ d2 @ ''.'' @ d3" by simp
    with c d \<open>digits d3\<close> show ?thesis unfolding dash_or_point_form_def by blast
  qed
qed

lemma dash_longest:
  assumes "match_at False dash_account_pattern b (w @ remaining m) = Some m"
    and "group1 m = Some w" and "dash_form w" and "dash_form w'"
    and "w @ remaining m = w' @ post'"
  shows "length w' \<le> length w"
proof -
  have dash: "\<not> isdigit CHR ''-''" by code_simp
  from assms(3) obtain d1 d2 u where 1: "w = d1 @ CHR ''-'' # d2 @ u"
      "d1 \<noteq> []" "list_all isdigit d1" "d2 \<noteq> []" "list_all isdigit d2"
      "u = [] \<or> (\<exists>d3. u = CHR ''.'' # d3 \<and> d3 \<noteq> [] \<and> list_all isdigit d3)"
    unfolding dash_form_shape by blast
  from assms(4) obtain d1' d2' u' where 2: "w' = d1' @ CHR ''-'' # d2' @ u'"
      "d1' \<noteq> []" "list_all isdigit d1'" "d2' \<noteq> []" "list_all isdigit d2'"
      "u' = [] \<or> (\<exists>d3. u' = CHR ''.'' # d3 \<and> d3 \<noteq> [] \<and> list_all isdigit d3)"
    unfolding dash_form_shape by blast
  have cs: "\<not> isdigit c" if "in_class False [Chr CHR ''-''] c" for c
    using that dash by (simp add: in_class_exact)
  have in_cs: "in_class False [Chr CHR ''-''] CHR ''-''" by (simp add: in_class_exact)
  from suffix_form_longest[of "[Chr CHR ''-'']", OF cs assms(1)[unfolded dash_account_pattern_def]
      assms(2) 1(1) in_cs 1(2-6) 2(1) in_cs 2(2-6) assms(5)]
  show ?thesis .
qed

lemma dash_or_point_longest:
  assumes "match_at False wfa_account_pattern b (w @ remaining m) = Some m"
    and "group1 m = Some w" and "dash_or_point_form w" and "dash_or_point_form w'"
    and "w @ remaining m = w' @ post'"
  shows "length w' \<le> length w"
proof -
  have dash: "\<not> isdigit CHR ''-''" and dot: "\<not> isdigit CHR ''.''" by code_simp+
  from assms(3) obtain d1 c d2 u where 1: "w = d1 @ c # d2 @ u" "c = CHR ''-'' \<or> c = CHR ''.''"
      "d1 \<noteq> []" "list_all isdigit d1" "d2 \<noteq> []" "list_all isdigit d2"
      "u = [] \<or> (\<exists>d3. u = CHR ''.'' # d3 \<and> d3 \<noteq> [] \<and> list_all isdigit d3)"
    unfolding dash_or_point_form_shape by blast
  from assms(4) obtain d1' c' d2' u' where 2: "w' = d1' @ c' # d2' @ u'"
      "c' = CHR ''-'' \<or> c' = CHR ''.''"
      "d1' \<noteq> []" "list_all isdigit d1'" "d2' \<noteq> []" "list_all isdigit d2'"
      "u' = [] \<or> (\<exists>d3. u' = CHR ''.'' # d3 \<and> d3 \<noteq> [] \<and> list_all isdigit d3)"
    unfolding dash_or_point_form_shape by blast
  have cs: "\<not> isdigit c" if "in_class False [Chr CHR ''-'', Chr CHR ''.''] c" for c
    using that dash dot by (auto simp: in_class_exact)
  from 1(2) have c: "in_class False [Chr CHR ''-'', Chr CHR ''.''] c" by (simp add: in_class_exact)
  from 2(2) have c': "in_class False [Chr CHR ''-'', Chr CHR ''.''] c'" by (simp add: in_class_exact)
  from suffix_form_longest[of "[Chr CHR ''-'', Chr CHR ''.'']", OF cs
      assms(1)[unfolded wfa_account_pattern_def] assms(2) 1(1) c 1(3-7) 2(1) c' 2(3-7) assms(5)]
  show ?thesis .
qed

subsection \<open>The three steps\<close>

lemma lang_wfa_account_pattern:
  "lang False wfa_account_pattern b w a \<longleftrightarrow> dash_or_point_form w"
proof
  assume "lang False wfa_account_pattern b w a"
  then obtain d1 u1 where 1: "w = d1 @ u1" "d1 \<noteq> []" "list_all isdigit d1"
    and "lang False (Seq (Class [Chr CHR ''-'', Chr CHR ''.'']) (Seq (Many1 [Digit])
           (Seq (Opt (Seq (Lit CHR ''.'') (Seq (Many1 [Digit]) Eps))) Eps))) (rev d1 @ b) u1 a"
    unfolding wfa_account_pattern_def lang.simps(7) Seqs.simps lang_Seq_Many1
    by (auto simp: in_class_exact)
  then obtain c u2 where 2: "u1 = c # u2" "c = CHR ''-'' \<or> c = CHR ''.''"
    and "lang False (Seq (Many1 [Digit]) (Seq (Opt (Seq (Lit CHR ''.'') (Seq (Many1 [Digit]) Eps))) Eps))
           (c # rev d1 @ b) u2 a"
    unfolding lang_Seq_single by (auto simp: in_class_exact)
  then obtain d2 u3 where 3: "u2 = d2 @ u3" "d2 \<noteq> []" "list_all isdigit d2"
    and "u3 = [] \<or> lang False (Seq (Lit CHR ''.'') (Seq (Many1 [Digit]) Eps))
           (rev d2 @ c # rev d1 @ b) u3 a"
    unfolding lang_Seq_Many1 lang_Seq_Opt_Eps by (auto simp: in_class_exact)
  then consider "u3 = []" | d3 where "u3 = CHR ''.'' # d3" "d3 \<noteq> []" "list_all isdigit d3"
    unfolding lang_Seq_single lang_Seq_Eps lang_Many1 by (auto simp: in_class_exact lit_eq_def)
  then show "dash_or_point_form w"
  proof cases
    case 1
    with \<open>w = d1 @ u1\<close> 2 3 have "w = d1 @ [c] @ d2" by simp
    with \<open>d1 \<noteq> []\<close> \<open>list_all isdigit d1\<close> 2 3 show ?thesis
      unfolding dash_or_point_form_def digits_def by blast
  next
    case (2 d3)
    with \<open>w = d1 @ u1\<close> \<open>u1 = c # u2\<close> 3
    have "w = d1 @ [c] @ d2 @ ''.'' @ d3" by simp
    with \<open>d1 \<noteq> []\<close> \<open>list_all isdigit d1\<close> \<open>c = CHR ''-'' \<or> c = CHR ''.''\<close> 3 2 show ?thesis
      unfolding dash_or_point_form_def digits_def by blast
  qed
next
  assume "dash_or_point_form w"
  then have "\<exists>d1 c d2 u3. w = d1 @ c # d2 @ u3 \<and> (c = CHR ''-'' \<or> c = CHR ''.'')
      \<and> d1 \<noteq> [] \<and> list_all isdigit d1 \<and> d2 \<noteq> [] \<and> list_all isdigit d2
      \<and> (u3 = [] \<or> (\<exists>d3. u3 = CHR ''.'' # d3 \<and> d3 \<noteq> [] \<and> list_all isdigit d3))"
    unfolding dash_or_point_form_def digits_def
  proof (elim disjE exE conjE)
    fix d1 c d2
    assume "w = d1 @ [c] @ d2" "c = CHR ''-''" "d1 \<noteq> []" "list_all isdigit d1" "d2 \<noteq> []" "list_all isdigit d2"
    then show ?thesis by (intro exI[of _ d1] exI[of _ c] exI[of _ d2] exI[of _ "[]"]) simp
  next
    fix d1 c d2
    assume "w = d1 @ [c] @ d2" "c = CHR ''.''" "d1 \<noteq> []" "list_all isdigit d1" "d2 \<noteq> []" "list_all isdigit d2"
    then show ?thesis by (intro exI[of _ d1] exI[of _ c] exI[of _ d2] exI[of _ "[]"]) simp
  next
    fix d1 c d2 d3
    assume "w = d1 @ [c] @ d2 @ ''.'' @ d3" "c = CHR ''-''" "d1 \<noteq> []" "list_all isdigit d1"
      "d2 \<noteq> []" "list_all isdigit d2" "d3 \<noteq> []" "list_all isdigit d3"
    then show ?thesis by (intro exI[of _ d1] exI[of _ c] exI[of _ d2] exI[of _ "CHR ''.'' # d3"]) simp
  next
    fix d1 c d2 d3
    assume "w = d1 @ [c] @ d2 @ ''.'' @ d3" "c = CHR ''.''" "d1 \<noteq> []" "list_all isdigit d1"
      "d2 \<noteq> []" "list_all isdigit d2" "d3 \<noteq> []" "list_all isdigit d3"
    then show ?thesis by (intro exI[of _ d1] exI[of _ c] exI[of _ d2] exI[of _ "CHR ''.'' # d3"]) simp
  qed
  then obtain d1 c d2 u3 where w: "w = d1 @ c # d2 @ u3"
    and c: "c = CHR ''-'' \<or> c = CHR ''.''"
    and d: "d1 \<noteq> []" "list_all isdigit d1" "d2 \<noteq> []" "list_all isdigit d2"
    and u3: "u3 = [] \<or> (\<exists>d3. u3 = CHR ''.'' # d3 \<and> d3 \<noteq> [] \<and> list_all isdigit d3)"
    by blast
  have 4: "u3 = [] \<or> lang False (Seq (Lit CHR ''.'') (Seq (Many1 [Digit]) Eps)) b4 u3 a" for b4
    unfolding lang_Seq_single lang_Seq_Eps lang_Many1 using u3
    by (auto simp: in_class_exact lit_eq_def)
  have 3: "lang False (Seq (Many1 [Digit]) (Seq (Opt (Seq (Lit CHR ''.'') (Seq (Many1 [Digit]) Eps))) Eps))
             b3 (d2 @ u3) a" for b3
    unfolding lang_Seq_Many1 lang_Seq_Opt_Eps using d(3,4) 4 by (auto simp: in_class_exact)
  have 2: "lang False (Seq (Class [Chr CHR ''-'', Chr CHR ''.'']) (Seq (Many1 [Digit])
             (Seq (Opt (Seq (Lit CHR ''.'') (Seq (Many1 [Digit]) Eps))) Eps))) b2
             (c # d2 @ u3) a" for b2
    unfolding lang_Seq_single using 3 c by (simp add: in_class_exact)
  have "lang False (Seq (Many1 [Digit]) (Seq (Class [Chr CHR ''-'', Chr CHR ''.'']) (Seq (Many1 [Digit])
          (Seq (Opt (Seq (Lit CHR ''.'') (Seq (Many1 [Digit]) Eps))) Eps)))) b
          (d1 @ c # d2 @ u3) a"
    unfolding lang_Seq_Many1 using d(1,2) 2 by (auto simp: in_class_exact)
  with w show "lang False wfa_account_pattern b w a"
    by (simp add: wfa_account_pattern_def)
qed

lemma body_dash_dot:
  "lang False (Seqs [Many1 [Digit], Class [Chr CHR ''-''], Many1 [Digit],
                  Lit CHR ''.'', Many1 [Digit]]) b w a \<longleftrightarrow> dash_dot_form w"
  using lang_bok_account_pattern[of b w a] by (simp add: bok_account_pattern_def)

lemma body_dash:
  "lang False (Seqs [Many1 [Digit], Class [Chr CHR ''-''], Many1 [Digit],
                  Opt (Seqs [Lit CHR ''.'', Many1 [Digit]])]) b w a \<longleftrightarrow> dash_form w"
  using lang_dash_account_pattern[of b w a] by (simp add: dash_account_pattern_def)

lemma body_dash_or_point:
  "lang False (Seqs [Many1 [Digit], Class [Chr CHR ''-'', Chr CHR ''.''], Many1 [Digit],
                  Opt (Seqs [Lit CHR ''.'', Many1 [Digit]])]) b w a \<longleftrightarrow> dash_or_point_form w"
  using lang_wfa_account_pattern[of b w a] by (simp add: wfa_account_pattern_def)

lemma search_dash_dot:
  "re_search False bok_account_pattern s = None \<longleftrightarrow> \<not> occurs_in dash_dot_form s"
  "re_search False bok_account_pattern s = Some m
     \<Longrightarrow> \<exists>w. group1 m = Some w \<and> leftmost_longest_in dash_dot_form s w"
proof -
  show "re_search False bok_account_pattern s = None \<longleftrightarrow> \<not> occurs_in dash_dot_form s"
    using search_account_None[of _ dash_dot_form s, OF body_dash_dot]
    unfolding bok_account_pattern_def by simp
  assume m: "re_search False bok_account_pattern s = Some m"
  show "\<exists>w. group1 m = Some w \<and> leftmost_longest_in dash_dot_form s w"
    by (rule search_account_longest[OF m[unfolded bok_account_pattern_def] body_dash_dot])
       (rule dash_dot_longest[unfolded bok_account_pattern_def])
qed

lemma search_dash:
  "re_search False dash_account_pattern s = None \<longleftrightarrow> \<not> occurs_in dash_form s"
  "re_search False dash_account_pattern s = Some m
     \<Longrightarrow> \<exists>w. group1 m = Some w \<and> leftmost_longest_in dash_form s w"
proof -
  show "re_search False dash_account_pattern s = None \<longleftrightarrow> \<not> occurs_in dash_form s"
    using search_account_None[of _ dash_form s, OF body_dash]
    unfolding dash_account_pattern_def by simp
  assume m: "re_search False dash_account_pattern s = Some m"
  show "\<exists>w. group1 m = Some w \<and> leftmost_longest_in dash_form s w"
    by (rule search_account_longest[OF m[unfolded dash_account_pattern_def] body_dash])
       (rule dash_longest[unfolded dash_account_pattern_def])
qed

lemma search_dash_or_point:
  "re_search False wfa_account_pattern s = None \<longleftrightarrow> \<not> occurs_in dash_or_point_form s"
  "re_search False wfa_account_pattern s = Some m
     \<Longrightarrow> \<exists>w. group1 m = Some w \<and> leftmost_longest_in dash_or_point_form s w"
proof -
  show "re_search False wfa_account_pattern s = None \<longleftrightarrow> \<not> occurs_in dash_or_point_form s"
    using search_account_None[of _ dash_or_point_form s, OF body_dash_or_point]
    unfolding wfa_account_pattern_def by simp
  assume m: "re_search False wfa_account_pattern s = Some m"
  show "\<exists>w. group1 m = Some w \<and> leftmost_longest_in dash_or_point_form s w"
    by (rule search_account_longest[OF m[unfolded wfa_account_pattern_def] body_dash_or_point])
       (rule dash_or_point_longest[unfolded wfa_account_pattern_def])
qed

lemma account_of_section_dash_dot:
  assumes "occurs_in dash_dot_form s"
  shows "\<exists>w. account_of_section s = Inr (Some w) \<and> leftmost_longest_in dash_dot_form s w"
proof -
  from assms search_dash_dot(1)[of s]
  obtain m where m: "re_search False bok_account_pattern s = Some m" by auto
  from search_dash_dot(2)[OF m]
  obtain w where "group1 m = Some w" "leftmost_longest_in dash_dot_form s w" by blast
  with m show ?thesis by (simp add: account_of_section_def)
qed

lemma account_of_section_dash:
  assumes "\<not> occurs_in dash_dot_form s" and "occurs_in dash_form s"
  shows "\<exists>w. account_of_section s = Inr (Some w) \<and> leftmost_longest_in dash_form s w"
proof -
  from assms(1) have none: "re_search False bok_account_pattern s = None"
    by (simp add: search_dash_dot(1))
  from assms(2) search_dash(1)[of s]
  obtain m where m: "re_search False dash_account_pattern s = Some m" by auto
  from search_dash(2)[OF m]
  obtain w where "group1 m = Some w" "leftmost_longest_in dash_form s w" by blast
  with none m show ?thesis by (simp add: account_of_section_def)
qed

lemma account_of_section_token:
  assumes "\<not> occurs_in dash_dot_form s" and "\<not> occurs_in dash_form s"
  shows "account_of_section s
           = (case str_split s of [] \<Rightarrow> Inl IndexError | tok # _ \<Rightarrow> Inr (Some tok))"
proof -
  from assms(1) have a: "re_search False bok_account_pattern s = None"
    by (simp add: search_dash_dot(1))
  from assms(2) have b: "re_search False dash_account_pattern s = None"
    by (simp add: search_dash(1))
  from a b show ?thesis
    by (simp add: account_of_section_def first_token_def split: list.splits)
qed

lemma version2_account_steps:
  assumes "str_contains '' - '' (str_replace filename ''.pdf'' [])"
    and "s = str_strip (str_rsplit1 (str_replace filename ''.pdf'' []) '' - '' ! 1)"
  shows "(occurs_in dash_dot_form s \<longrightarrow>
            (\<exists>w. bok_extract_account_number_from_filename filename = Inr (Some w)
                  \<and> leftmost_longest_in dash_dot_form s w))
       \<and> (\<not> occurs_in dash_dot_form s \<and> occurs_in dash_or_point_form s \<longrightarrow>
            (\<exists>w. bok_extract_account_number_from_filename filename = Inr (Some w)
                  \<and> leftmost_longest_in dash_or_point_form s w))
       \<and> (\<not> occurs_in dash_dot_form s \<and> \<not> occurs_in dash_or_point_form s \<longrightarrow>
            (\<forall>tok toks. str_split s = tok # toks \<longrightarrow>
               bok_extract_account_number_from_filename filename = Inr (Some tok)))"
proof -
  from rsplit1_two_parts[OF assms(1)]
  have two: "1 < length (str_rsplit1 (str_replace filename ''.pdf'' []) '' - '')" by simp
  have eq: "bok_extract_account_number_from_filename filename =
      (case re_search False bok_account_pattern s of
         Some m \<Rightarrow> Inr (group1 m)
       | None \<Rightarrow>
           (case re_search False wfa_account_pattern s of
              Some m \<Rightarrow> Inr (group1 m)
            | None \<Rightarrow> (case first_token s of Inl e \<Rightarrow> Inl e | Inr w \<Rightarrow> Inr (Some w))))"
    unfolding assms(2) using assms(1) two
    by (simp add: bok_extract_account_number_from_filename_def Let_def
        cong: option.case_cong sum.case_cong)
  have a: "\<exists>w. bok_extract_account_number_from_filename filename = Inr (Some w)
                  \<and> leftmost_longest_in dash_dot_form s w"
    if "occurs_in dash_dot_form s"
  proof -
    from that search_dash_dot(1)[of s]
    obtain m where m: "re_search False bok_account_pattern s = Some m" by auto
    from search_dash_dot(2)[OF m]
    obtain w where "group1 m = Some w" "leftmost_longest_in dash_dot_form s w" by blast
    with m eq show ?thesis by simp
  qed
  have b: "\<exists>w. bok_extract_account_number_from_filename filename = Inr (Some w)
                  \<and> leftmost_longest_in dash_or_point_form s w"
    if "\<not> occurs_in dash_dot_form s" "occurs_in dash_or_point_form s"
  proof -
    from that(1) have none: "re_search False bok_account_pattern s = None"
      by (simp add: search_dash_dot(1))
    from that(2) search_dash_or_point(1)[of s]
    obtain m where m: "re_search False wfa_account_pattern s = Some m" by auto
    from search_dash_or_point(2)[OF m]
    obtain w where "group1 m = Some w" "leftmost_longest_in dash_or_point_form s w" by blast
    with none m eq show ?thesis by simp
  qed
  have c: "bok_extract_account_number_from_filename filename = Inr (Some tok)"
    if "\<not> occurs_in dash_dot_form s" "\<not> occurs_in dash_or_point_form s"
      "str_split s = tok # toks" for tok toks
  proof -
    from that(1) have a: "re_search False bok_account_pattern s = None"
      by (simp add: search_dash_dot(1))
    from that(2) have b: "re_search False wfa_account_pattern s = None"
      by (simp add: search_dash_or_point(1))
    from a b that(3) eq show ?thesis
      by (simp add: first_token_def)
  qed
  from a b c show ?thesis by blast
qed

text \<open>
  Claim C5.  The account section is the text after the last separator, stripped.  If the
  format digits, dash, digits, point, digits occurs in it, the account number is its
  leftmost occurrence, and the longest one that starts there; otherwise, if the second
  format occurs, its leftmost and longest occurrence; otherwise the first token of the
  section.  The first format wins even where the second occurs further to the left.  The
  second format is digits, dash, digits with an optional point and digits in
  \<open>extract_beneficiary_and_account\<close>; in
  \<open>BOKFinancialParser.extract_account_number_from_filename\<close> of
  \<open>extract_all_statements_final_Version2.py\<close> it is digits, a dash or a point, digits
  with an optional point and digits.
\<close>

theorem account_patterns_tried_in_order:
  assumes "str_contains '' - '' (str_replace filename ''.pdf'' [])"
    and "account_section = str_strip (str_rsplit1 (str_replace filename ''.pdf'' []) '' - '' ! 1)"
  shows "(occurs_in dash_dot_form account_section \<longrightarrow>
            (\<exists>ben w. extract_beneficiary_and_account filename = Inr (ben, Some w)
                      \<and> leftmost_longest_in dash_dot_form account_section w))
       \<and> (\<not> occurs_in dash_dot_form account_section \<and> occurs_in dash_form account_section \<longrightarrow>
            (\<exists>ben w. extract_beneficiary_and_account filename = Inr (ben, Some w)
                      \<and> leftmost_longest_in dash_form account_section w))
       \<and> (\<not> occurs_in dash_dot_form account_section \<and> \<not> occurs_in dash_form account_section \<longrightarrow>
            (\<forall>tok toks. str_split account_section = tok # toks \<longrightarrow>
               (\<exists>ben. extract_beneficiary_and_account filename = Inr (ben, Some tok))))
       \<and> extract_beneficiary_and_account ''First Coverage Re BIC - 1150-0007374.1.pdf''
           = Inr (Some ''BIC'', Some ''1150-0007374.1'')
       \<and> extract_beneficiary_and_account ''Baby Goat Re BIC Enterprise Risk - 2193-4125.pdf''
           = Inr (Some ''RISK'', Some ''2193-4125'')
       \<and> extract_beneficiary_and_account ''Acme Re DAC - 12-34 56-78.9.pdf''
           = Inr (Some ''DAC'', Some ''56-78.9'')
       \<and> (occurs_in dash_dot_form account_section \<longrightarrow>
            (\<exists>w. bok_extract_account_number_from_filename filename = Inr (Some w)
                  \<and> leftmost_longest_in dash_dot_form account_section w))
       \<and> (\<not> occurs_in dash_dot_form account_section
            \<and> occurs_in dash_or_point_form account_section \<longrightarrow>
            (\<exists>w. bok_extract_account_number_from_filename filename = Inr (Some w)
                  \<and> leftmost_longest_in dash_or_point_form account_section w))
       \<and> (\<not> occurs_in dash_dot_form account_section
            \<and> \<not> occurs_in dash_or_point_form account_section \<longrightarrow>
            (\<forall>tok toks. str_split account_section = tok # toks \<longrightarrow>
               bok_extract_account_number_from_filename filename = Inr (Some tok)))
       \<and> bok_extract_account_number_from_filename ''First Coverage Re BIC - 1150-0007374.1.pdf''
           = Inr (Some ''1150-0007374.1'')
       \<and> bok_extract_account_number_from_filename ''Acme Re DAC - 12.34 56-78.9.pdf''
           = Inr (Some ''56-78.9'')"
proof -
  from rsplit1_two_parts[OF assms(1)]
  have two: "1 < length (str_rsplit1 (str_replace filename ''.pdf'' []) '' - '')" by simp
  have eq: "extract_beneficiary_and_account filename =
      (case account_of_section account_section of
         Inl e \<Rightarrow> Inl e
       | Inr account_number \<Rightarrow>
           Inr (find_beneficiary (rev (str_split (str_strip
                  (str_rsplit1 (str_replace filename ''.pdf'' []) '' - '' ! 0)))), account_number))"
    using assms two by (simp add: extract_beneficiary_and_account_def Let_def)
  have a: "\<exists>ben w. extract_beneficiary_and_account filename = Inr (ben, Some w)
                      \<and> leftmost_longest_in dash_dot_form account_section w"
    if "occurs_in dash_dot_form account_section"
    using account_of_section_dash_dot[OF that] eq by auto
  have b: "\<exists>ben w. extract_beneficiary_and_account filename = Inr (ben, Some w)
                      \<and> leftmost_longest_in dash_form account_section w"
    if "\<not> occurs_in dash_dot_form account_section" "occurs_in dash_form account_section"
    using account_of_section_dash[OF that] eq by auto
  have c: "\<exists>ben. extract_beneficiary_and_account filename = Inr (ben, Some tok)"
    if "\<not> occurs_in dash_dot_form account_section" "\<not> occurs_in dash_form account_section"
      "str_split account_section = tok # toks" for tok toks
    using account_of_section_token[OF that(1,2)] that(3) eq by simp
  have e1: "extract_beneficiary_and_account ''First Coverage Re BIC - 1150-0007374.1.pdf''
           = Inr (Some ''BIC'', Some ''1150-0007374.1'')"
    by code_simp
  have e2: "extract_beneficiary_and_account ''Baby Goat Re BIC Enterprise Risk - 2193-4125.pdf''
           = Inr (Some ''RISK'', Some ''2193-4125'')"
    by code_simp
  have e3: "extract_beneficiary_and_account ''Acme Re DAC - 12-34 56-78.9.pdf''
           = Inr (Some ''DAC'', Some ''56-78.9'')"
    by code_simp
  have e4: "bok_extract_account_number_from_filename ''First Coverage Re BIC - 1150-0007374.1.pdf''
           = Inr (Some ''1150-0007374.1'')"
    by code_simp
  have e5: "bok_extract_account_number_from_filename ''Acme Re DAC - 12.34 56-78.9.pdf''
           = Inr (Some ''56-78.9'')"
    by code_simp
  from version2_account_steps[OF assms]
  have v: "occurs_in dash_dot_form account_section \<longrightarrow>
            (\<exists>w. bok_extract_account_number_from_filename filename = Inr (Some w)
                  \<and> leftmost_longest_in dash_dot_form account_section w)"
      "\<not> occurs_in dash_dot_form account_section
            \<and> occurs_in dash_or_point_form account_section \<longrightarrow>
            (\<exists>w. bok_extract_account_number_from_filename filename = Inr (Some w)
                  \<and> leftmost_longest_in dash_or_point_form account_section w)"
      "\<not> occurs_in dash_dot_form account_section
            \<and> \<not> occurs_in dash_or_point_form account_section \<longrightarrow>
            (\<forall>tok toks. str_split account_section = tok # toks \<longrightarrow>
               bok_extract_account_number_from_filename filename = Inr (Some tok))"
    by blast+
  have first: "(occurs_in dash_dot_form account_section \<longrightarrow>
            (\<exists>ben w. extract_beneficiary_and_account filename = Inr (ben, Some w)
                      \<and> leftmost_longest_in dash_dot_form account_section w))
       \<and> (\<not> occurs_in dash_dot_form account_section \<and> occurs_in dash_form account_section \<longrightarrow>
            (\<exists>ben w. extract_beneficiary_and_account filename = Inr (ben, Some w)
                      \<and> leftmost_longest_in dash_form account_section w))
       \<and> (\<not> occurs_in dash_dot_form account_section \<and> \<not> occurs_in dash_form account_section \<longrightarrow>
            (\<forall>tok toks. str_split account_section = tok # toks \<longrightarrow>
               (\<exists>ben. extract_beneficiary_and_account filename = Inr (ben, Some tok))))"
    using a b c by blast
  from first e1 e2 e3 v e4 e5 show ?thesis by (intro conjI) (elim conjE, assumption)+
qed

text \<open>The file name of the claim, whose account section \<open>1150-0007374.1\<close> has the first
  format; and a file name whose account section \<open>7374.1 1150-22\<close> has the second format
  only, at a different place for each of the two parsers.\<close>

theorem account_patterns_tried_in_order_witness:
  "str_contains '' - '' (str_replace ''First Coverage Re BIC - 1150-0007374.1.pdf'' ''.pdf'' [])
   \<and> occurs_in dash_dot_form ''1150-0007374.1''
   \<and> leftmost_longest_in dash_dot_form ''1150-0007374.1'' ''1150-0007374.1''
   \<and> str_contains '' - '' (str_replace ''Acme Re DAC - 7374.1 1150-22.pdf'' ''.pdf'' [])
   \<and> \<not> occurs_in dash_dot_form ''7374.1 1150-22''
   \<and> occurs_in dash_form ''7374.1 1150-22''
   \<and> occurs_in dash_or_point_form ''7374.1 1150-22''
   \<and> leftmost_longest_in dash_form ''7374.1 1150-22'' ''1150-22''
   \<and> leftmost_longest_in dash_or_point_form ''7374.1 1150-22'' ''7374.1''"
proof -
  let ?f = "''First Coverage Re BIC - 1150-0007374.1.pdf''"
  have h1: "str_contains '' - '' (str_replace ?f ''.pdf'' [])" by code_simp
  have h2: "''1150-0007374.1'' = str_strip (str_rsplit1 (str_replace ?f ''.pdf'' []) '' - '' ! 1)"
    by code_simp
  have d: "digits ''1150''" "digits ''0007374''" "digits ''1''" by code_simp+
  have "''1150-0007374.1'' = ''1150'' @ ''-'' @ ''0007374'' @ ''.'' @ ''1''" by simp
  with d have form: "dash_dot_form ''1150-0007374.1''"
    unfolding dash_dot_form_def by blast
  have "''1150-0007374.1'' = [] @ ''1150-0007374.1'' @ []" by simp
  with form have occ: "occurs_in dash_dot_form ''1150-0007374.1''"
    unfolding occurs_in_def by blast
  from account_patterns_tried_in_order[OF h1 h2] occ
  obtain ben w where "extract_beneficiary_and_account ?f = Inr (ben, Some w)"
    and l: "leftmost_longest_in dash_dot_form ''1150-0007374.1'' w"
    by blast
  moreover from account_patterns_tried_in_order[OF h1 h2]
  have "extract_beneficiary_and_account ?f = Inr (Some ''BIC'', Some ''1150-0007374.1'')"
    by blast
  ultimately have "w = ''1150-0007374.1''" by simp
  with l have first: "leftmost_longest_in dash_dot_form ''1150-0007374.1'' ''1150-0007374.1''" by simp
  let ?g = "''Acme Re DAC - 7374.1 1150-22.pdf''"
  let ?s = "''7374.1 1150-22''"
  have g1: "str_contains '' - '' (str_replace ?g ''.pdf'' [])" by code_simp
  have g2: "?s = str_strip (str_rsplit1 (str_replace ?g ''.pdf'' []) '' - '' ! 1)"
    by code_simp
  have "re_search False bok_account_pattern ?s = None" by code_simp
  then have no: "\<not> occurs_in dash_dot_form ?s"
    by (simp add: search_dash_dot(1))
  have e: "digits ''7374''" "digits ''1''" "digits ''1150''" "digits ''22''" by code_simp+
  have "''1150-22'' = ''1150'' @ ''-'' @ ''22''" by simp
  with e have "dash_form ''1150-22''" unfolding dash_form_def by blast
  moreover have "?s = ''7374.1 '' @ ''1150-22'' @ []" by simp
  ultimately have occ_b: "occurs_in dash_form ?s" unfolding occurs_in_def by blast
  have "''7374.1'' = ''7374'' @ [CHR ''.''] @ ''1''" by simp
  with e have "dash_or_point_form ''7374.1''" unfolding dash_or_point_form_def by blast
  moreover have "?s = [] @ ''7374.1'' @ '' 1150-22''" by simp
  ultimately have occ_c: "occurs_in dash_or_point_form ?s" unfolding occurs_in_def by blast
  have v1: "extract_beneficiary_and_account ?g = Inr (Some ''DAC'', Some ''1150-22'')"
    by code_simp
  have v2: "bok_extract_account_number_from_filename ?g = Inr (Some ''7374.1'')"
    by code_simp
  from account_patterns_tried_in_order[OF g1 g2] no occ_b
  obtain ben' w' where "extract_beneficiary_and_account ?g = Inr (ben', Some w')"
    and "leftmost_longest_in dash_form ?s w'"
    by blast
  with v1 have second: "leftmost_longest_in dash_form ?s ''1150-22''" by simp
  from account_patterns_tried_in_order[OF g1 g2] no occ_c
  obtain w'' where "bok_extract_account_number_from_filename ?g = Inr (Some w'')"
    and "leftmost_longest_in dash_or_point_form ?s w''"
    by blast
  with v2 have third: "leftmost_longest_in dash_or_point_form ?s ''7374.1''" by simp
  from h1 occ first g1 no occ_b occ_c second third show ?thesis by blast
qed

subsection \<open>The beneficiary code\<close>

lemma code_of_char_of: "n < 256 \<Longrightarrow> code (char_of n) = n"
  by (simp add: code_def)

lemma in_class_letters: "in_class True [Range CHR ''A'' CHR ''Z''] = isalpha_ascii"
proof (rule ext)
  fix c
  have A: "code CHR ''A'' = 65" and Z: "code CHR ''Z'' = 90" by code_simp+
  have "code c < 256" by (simp add: code_def)
  show "in_class True [Range CHR ''A'' CHR ''Z''] c = isalpha_ascii c"
  proof (cases "isupper_ascii c")
    case True
    then show ?thesis
      by (simp add: in_class_def isalpha_ascii_def A Z isupper_ascii_def)
  next
    case False
    note not_upper = this
    show ?thesis
    proof (cases "islower_ascii c")
      case True
      then have "code c \<le> 122" by (simp add: islower_ascii_def)
      then have "code c - 32 < 256" by arith
      then have "code (char_of (code c - 32)) = code c - 32"
        by (rule code_of_char_of)
      moreover from True have "65 \<le> code c - 32 \<and> code c - 32 \<le> 90"
        unfolding islower_ascii_def by arith
      ultimately show ?thesis using True
        by (simp add: in_class_def isalpha_ascii_def A Z upper_def)
    next
      case False
      with not_upper show ?thesis
        by (simp add: in_class_def isalpha_ascii_def A Z upper_def lower_def isupper_ascii_def)
    qed
  qed
qed

lemma lang_copies:
  "lang ic (copies n (Class cs)) b w a \<longleftrightarrow> length w = n \<and> list_all (in_class ic cs) w"
proof (induction n arbitrary: b w)
  case 0
  show ?case by auto
next
  case (Suc n)
  show ?case
    by (cases w) (auto simp: lang_Seq_single Suc.IH)
qed

lemma lang_at_most:
  "lang ic (at_most n (Class cs)) b w a \<longleftrightarrow> length w \<le> n \<and> list_all (in_class ic cs) w"
proof (induction n arbitrary: b w)
  case 0
  show ?case by auto
next
  case (Suc n)
  show ?case
    by (cases w) (auto simp: Opt_def lang_Seq_single Suc.IH)
qed

lemma lang_Rep:
  assumes "m \<le> n"
  shows "lang ic (Rep m n (Class cs)) b w a
           \<longleftrightarrow> m \<le> length w \<and> length w \<le> n \<and> list_all (in_class ic cs) w"
proof
  assume "lang ic (Rep m n (Class cs)) b w a"
  then obtain w1 w2 where "w = w1 @ w2" "length w1 = m" "list_all (in_class ic cs) w1"
    "length w2 \<le> n - m" "list_all (in_class ic cs) w2"
    by (auto simp: Rep_def lang.simps(4) lang_copies lang_at_most)
  with assms show "m \<le> length w \<and> length w \<le> n \<and> list_all (in_class ic cs) w" by auto
next
  assume r: "m \<le> length w \<and> length w \<le> n \<and> list_all (in_class ic cs) w"
  then have "w = take m w @ drop m w" "length (take m w) = m"
    "list_all (in_class ic cs) (take m w)" "length (drop m w) \<le> n - m"
    "list_all (in_class ic cs) (drop m w)"
    by (auto simp: list_all_iff dest: in_set_takeD in_set_dropD)
  then have "\<exists>w1 w2. w = w1 @ w2 \<and> lang ic (copies m (Class cs)) b w1 (w2 @ a)
      \<and> lang ic (at_most (n - m) (Class cs)) (rev w1 @ b) w2 a"
    unfolding lang_copies lang_at_most by blast
  then show "lang ic (Rep m n (Class cs)) b w a"
    by (simp add: Rep_def lang.simps(4))
qed

lemma lang_code_pattern:
  "lang True code_pattern b w a
     \<longleftrightarrow> b = [] \<and> is_code_word w \<and> (a = [] \<or> a = [CHR 0x0A])"
proof -
  have "lang True code_pattern b w a
     \<longleftrightarrow> b = [] \<and> lang True (Rep 2 4 (Class [Range CHR ''A'' CHR ''Z''])) b w (a)
         \<and> (a = [] \<or> a = [CHR 0x0A])"
    by (auto simp: code_pattern_def lang.simps(4))
  then show ?thesis
    by (simp add: lang_Rep in_class_letters is_code_word_def)
qed

lemma newline_isspace: "isspace (CHR 0x0A)"
  by code_simp

lemma re_match_code_pattern:
  assumes "\<forall>c \<in> set w. \<not> isspace c"
  shows "re_match True code_pattern w \<noteq> None \<longleftrightarrow> is_code_word w"
proof
  assume "re_match True code_pattern w \<noteq> None"
  then obtain u a where "w = u @ a" "is_code_word u" "a = [] \<or> a = [CHR 0x0A]"
    unfolding re_match_def match_at_None_iff lang_code_pattern by blast
  with assms newline_isspace show "is_code_word w" by auto
next
  assume "is_code_word w"
  then have "w = w @ [] \<and> lang True code_pattern [] w []"
    by (simp add: lang_code_pattern)
  then show "re_match True code_pattern w \<noteq> None"
    unfolding re_match_def match_at_None_iff by blast
qed

lemma lit_eq_fold: "list_all2 (lit_eq True) v w \<longleftrightarrow> map lower w = map lower v"
proof (induction v arbitrary: w)
  case Nil
  show ?case by auto
next
  case (Cons p v)
  have "lit_eq True p c \<longleftrightarrow> lower c = lower p" for c
    by (simp add: lit_eq_def)
  then show ?case by (cases w) (simp_all add: Cons.IH)
qed

lemma lang_markers:
  "lang True (Group (Alt (Str ''WH'') (Alt (Str ''Warehouse'') (Alt (Str ''Whse'')
                   (Alt (Str ''Whouse'') (Str ''Warehse'')))))) b w a
     \<longleftrightarrow> is_warehouse_marker w"
  by (simp add: lang_Str lit_eq_fold is_warehouse_marker_def)

lemma lang_warehouse_pattern:
  "lang True warehouse_pattern b w a
     \<longleftrightarrow> is_warehouse_marker w
         \<and> (b \<noteq> [] \<and> isword (hd b)) \<noteq> (w @ a \<noteq> [] \<and> isword (hd (w @ a)))
         \<and> (rev w @ b \<noteq> [] \<and> isword (hd (rev w @ b))) \<noteq> (a \<noteq> [] \<and> isword (hd a))"
proof -
  let ?alts = "Group (Alt (Str ''WH'') (Alt (Str ''Warehouse'') (Alt (Str ''Whse'')
                   (Alt (Str ''Whouse'') (Str ''Warehse'')))))"
  have 3: "lang True (Seq WordB Eps) b3 w3 a \<longleftrightarrow>
      w3 = [] \<and> (b3 \<noteq> [] \<and> isword (hd b3)) \<noteq> (a \<noteq> [] \<and> isword (hd a))" for b3 w3
    by (simp add: lang_Seq_Eps)
  have 2: "lang True (Seq ?alts (Seq WordB Eps)) b2 w2 a \<longleftrightarrow>
      is_warehouse_marker w2
      \<and> (rev w2 @ b2 \<noteq> [] \<and> isword (hd (rev w2 @ b2))) \<noteq> (a \<noteq> [] \<and> isword (hd a))" for b2 w2
    unfolding lang.simps(4)[of True ?alts] 3 lang_markers by auto
  have "lang True (Seq WordB (Seq ?alts (Seq WordB Eps))) b w a \<longleftrightarrow>
      (b \<noteq> [] \<and> isword (hd b)) \<noteq> (w @ a \<noteq> [] \<and> isword (hd (w @ a)))
      \<and> lang True (Seq ?alts (Seq WordB Eps)) b w a"
    unfolding lang.simps(4)[of True WordB] by auto
  then show ?thesis
    unfolding 2 by (auto simp: warehouse_pattern_def)
qed

lemma isalpha_isword: "isalpha_ascii c \<Longrightarrow> isword c"
  unfolding isalpha_ascii_def isword_def by blast

lemma marker_nonempty: "is_warehouse_marker w \<Longrightarrow> w \<noteq> []"
  by (auto simp: is_warehouse_marker_def)

lemma re_match_warehouse_pattern:
  assumes "list_all isalpha_ascii w"
  shows "re_match True warehouse_pattern w \<noteq> None \<longleftrightarrow> is_warehouse_marker w"
proof
  assume "re_match True warehouse_pattern w \<noteq> None"
  then obtain u a where w: "w = u @ a" and m: "is_warehouse_marker u"
    and e: "(rev u @ [] \<noteq> [] \<and> isword (hd (rev u @ []))) \<noteq> (a \<noteq> [] \<and> isword (hd a))"
    unfolding re_match_def match_at_None_iff lang_warehouse_pattern by blast
  from m have "u \<noteq> []" by (rule marker_nonempty)
  with w assms have "isword (hd (rev u))"
    by (intro isalpha_isword) (auto simp: list_all_iff hd_rev)
  with e \<open>u \<noteq> []\<close> have "\<not> (a \<noteq> [] \<and> isword (hd a))" by simp
  moreover have "isword (hd a)" if "a \<noteq> []"
    using that w assms by (intro isalpha_isword) (auto simp: list_all_iff)
  ultimately have "a = []" by blast
  with w m show "is_warehouse_marker w" by simp
next
  assume m: "is_warehouse_marker w"
  then have ne: "w \<noteq> []" by (rule marker_nonempty)
  with assms have "isword (hd w)" "isword (hd (rev w))"
    by (auto intro!: isalpha_isword simp: list_all_iff hd_rev)
  with m ne have "w = w @ [] \<and> lang True warehouse_pattern [] w []"
    by (simp add: lang_warehouse_pattern)
  then show "re_match True warehouse_pattern w \<noteq> None"
    unfolding re_match_def match_at_None_iff by blast
qed

lemma find_beneficiary_first_code_word:
  assumes "\<forall>w \<in> set ws. \<forall>c \<in> set w. \<not> isspace c"
  shows "find_beneficiary ws = first_code_word ws"
  using assms
proof (induction ws)
  case Nil
  show ?case by simp
next
  case (Cons w ws)
  then have IH: "find_beneficiary ws = first_code_word ws"
    and nows: "\<forall>c \<in> set w. \<not> isspace c" by simp_all
  show ?case
  proof (cases "is_code_word w")
    case True
    then have "list_all isalpha_ascii w" by (simp add: is_code_word_def)
    from re_match_warehouse_pattern[OF this] re_match_code_pattern[OF nows] True IH
    show ?thesis by simp
  next
    case False
    with re_match_code_pattern[OF nows] IH show ?thesis by simp
  qed
qed

lemma str_split_words: "w \<in> set (str_split s) \<Longrightarrow> \<forall>c \<in> set w. \<not> isspace c"
  using split_from_tokens[of w "[]" s] by (simp add: str_split_def)

text \<open>
  Claim C6.  For a file name with the separator, the beneficiary code is the result of
  the rule in words applied to the words of the name section from the last to the first:
  warehouse markers are passed over, and the first other word of two to four letters is
  returned in upper case, or nothing when there is no such word.
\<close>

theorem beneficiary_is_first_code_word:
  assumes "str_contains '' - '' (str_replace filename ''.pdf'' [])"
    and "name_section = str_strip (str_rsplit1 (str_replace filename ''.pdf'' []) '' - '' ! 0)"
  shows "(\<forall>ben acct. extract_beneficiary_and_account filename = Inr (ben, acct)
            \<longrightarrow> ben = first_code_word (rev (str_split name_section)))
       \<and> find_beneficiary (rev (str_split name_section))
           = first_code_word (rev (str_split name_section))
       \<and> extract_beneficiary_and_account ''Kamal Alhajli WH BIC - 3719-3369.pdf''
           = Inr (Some ''BIC'', Some ''3719-3369'')
       \<and> extract_beneficiary_and_account ''Kamal Alhajli bic Whse - 3719-3369.pdf''
           = Inr (Some ''BIC'', Some ''3719-3369'')
       \<and> extract_beneficiary_and_account ''Kamal Alhajli 2024 - 3719-3369.pdf''
           = Inr (None, Some ''3719-3369'')"
proof -
  from rsplit1_two_parts[OF assms(1)]
  have two: "1 < length (str_rsplit1 (str_replace filename ''.pdf'' []) '' - '')" by simp
  have same: "find_beneficiary (rev (str_split name_section))
           = first_code_word (rev (str_split name_section))"
    by (rule find_beneficiary_first_code_word) (auto dest: str_split_words)
  have "ben = first_code_word (rev (str_split name_section))"
    if "extract_beneficiary_and_account filename = Inr (ben, acct)" for ben acct
    using that assms two same
    by (auto simp: extract_beneficiary_and_account_def Let_def split: sum.splits)
  moreover have "extract_beneficiary_and_account ''Kamal Alhajli WH BIC - 3719-3369.pdf''
           = Inr (Some ''BIC'', Some ''3719-3369'')"
    by code_simp
  moreover have "extract_beneficiary_and_account ''Kamal Alhajli bic Whse - 3719-3369.pdf''
           = Inr (Some ''BIC'', Some ''3719-3369'')"
    by code_simp
  moreover have "extract_beneficiary_and_account ''Kamal Alhajli 2024 - 3719-3369.pdf''
           = Inr (None, Some ''3719-3369'')"
    by code_simp
  ultimately show ?thesis using same by blast
qed

text \<open>The file name of the claim: the words of its name section, read from the last,
  are \<open>BIC\<close>, \<open>WH\<close>, \<open>Alhajli\<close> and \<open>Kamal\<close>.\<close>

theorem beneficiary_is_first_code_word_witness:
  "str_contains '' - '' (str_replace ''Kamal Alhajli WH - 3719-3369.pdf'' ''.pdf'' [])
   \<and> extract_beneficiary_and_account ''Kamal Alhajli WH - 3719-3369.pdf''
       = Inr (None, Some ''3719-3369'')
   \<and> first_code_word (rev (str_split ''Kamal Alhajli WH'')) = None"
proof -
  let ?f = "''Kamal Alhajli WH - 3719-3369.pdf''"
  have h1: "str_contains '' - '' (str_replace ?f ''.pdf'' [])" by code_simp
  have h2: "''Kamal Alhajli WH'' = str_strip (str_rsplit1 (str_replace ?f ''.pdf'' []) '' - '' ! 0)"
    by code_simp
  have e: "extract_beneficiary_and_account ?f = Inr (None, Some ''3719-3369'')" by code_simp
  from beneficiary_is_first_code_word[OF h1 h2] e
  have "None = first_code_word (rev (str_split ''Kamal Alhajli WH''))" by blast
  with h1 e show ?thesis by simp
qed

text \<open>
  Claim C5 as stated fails for \<open>BOKFinancialParser.extract_account_number_from_filename\<close>
  of \<open>extract_all_statements_final_Version2.py\<close>: in the account section
  \<open>7374.1 1150-22\<close> the first format does not occur and the leftmost text of the format
  digits, dash, digits is \<open>1150-22\<close>, which \<open>extract_beneficiary_and_account\<close> returns,
  but this parser returns \<open>7374.1\<close>, since its second pattern takes a point in place of
  the dash.
\<close>

theorem version2_fallback_takes_a_point:
  "bok_extract_account_number_from_filename ''Acme Re DAC - 7374.1 1150-22.pdf''
     = Inr (Some ''7374.1'')
   \<and> extract_beneficiary_and_account ''Acme Re DAC - 7374.1 1150-22.pdf''
     = Inr (Some ''DAC'', Some ''1150-22'')
   \<and> str_strip (str_rsplit1 (str_replace ''Acme Re DAC - 7374.1 1150-22.pdf'' ''.pdf'' []) '' - '' ! 1)
     = ''7374.1 1150-22''
   \<and> \<not> occurs_in dash_dot_form ''7374.1 1150-22''
   \<and> leftmost_longest_in dash_form ''7374.1 1150-22'' ''1150-22''"
proof -
  have 1: "bok_extract_account_number_from_filename ''Acme Re DAC - 7374.1 1150-22.pdf''
             = Inr (Some ''7374.1'')"
    by code_simp
  have 2: "extract_beneficiary_and_account ''Acme Re DAC - 7374.1 1150-22.pdf''
             = Inr (Some ''DAC'', Some ''1150-22'')"
    by code_simp
  have 3: "str_strip (str_rsplit1 (str_replace ''Acme Re DAC - 7374.1 1150-22.pdf'' ''.pdf'' [])
             '' - '' ! 1) = ''7374.1 1150-22''"
    by code_simp
  have "re_search False bok_account_pattern ''7374.1 1150-22'' = None" by code_simp
  then have 4: "\<not> occurs_in dash_dot_form ''7374.1 1150-22''"
    by (simp add: search_dash_dot(1))
  have m: "re_search False dash_account_pattern ''7374.1 1150-22''
             = Some \<lparr>group1 = Some ''1150-22'', remaining = []\<rparr>"
    by code_simp
  from search_dash(2)[OF m]
  have 5: "leftmost_longest_in dash_form ''7374.1 1150-22'' ''1150-22''" by simp
  from 1 2 3 4 5 show ?thesis by blast
qed

end
